theory Spec2Isabelle
  imports Main "HOL-Library.Multiset" "HOL-Library.Multiset_Order"
begin

section \<open>Strings and paths of the runtime\<close>

text \<open>
  The script \<^verbatim>\<open>src/scripts/extract-zip-and-count.mjs\<close> works on JavaScript strings
  with the string methods and with Node's \<^verbatim>\<open>path\<close> module in its POSIX flavour.
  Neither is code of the repository; they are written out here after their
  documented behaviour, on byte strings: \<^verbatim>\<open>toLowerCase\<close> maps the ASCII capitals
  only, \<^verbatim>\<open>trim\<close> strips the ASCII white space.
\<close>

type_synonym path = string

definition lower_char :: "char \<Rightarrow> char" where
  "lower_char c =
     (let n = (of_char c :: nat) in if 65 \<le> n \<and> n \<le> 90 then char_of (n + 32) else c)"

definition toLowerCase :: "string \<Rightarrow> string" where
  "toLowerCase s = map lower_char s"

definition startsWith :: "string \<Rightarrow> string \<Rightarrow> bool" where
  "startsWith s p = (take (length p) s = p)"

definition endsWith :: "string \<Rightarrow> string \<Rightarrow> bool" where
  "endsWith s p = (length p \<le> length s \<and> drop (length s - length p) s = p)"

fun str_includes :: "string \<Rightarrow> string \<Rightarrow> bool" where
  "str_includes [] sub = (sub = [])"
| "str_includes (c # cs) sub = (startsWith (c # cs) sub \<or> str_includes cs sub)"

definition is_space :: "char \<Rightarrow> bool" where
  "is_space c = (c \<in> set [CHR '' '', CHR 0x09, CHR 0x0A, CHR 0x0B, CHR 0x0C, CHR 0x0D])"

definition trim :: "string \<Rightarrow> string" where
  "trim s = rev (dropWhile is_space (rev (dropWhile is_space s)))"

text \<open>Decimal digits of a number, as a template literal prints an integer.\<close>

function show_nat :: "nat \<Rightarrow> string" where
  "show_nat n =
     (if n < 10 then [char_of (48 + n)] else show_nat (n div 10) @ [char_of (48 + n mod 10)])"
  by pat_completeness auto
termination
  by (relation "measure id") auto

declare show_nat.simps [simp del]

definition is_slash :: "char \<Rightarrow> bool" where
  "is_slash c = (c = CHR ''/'')"

text \<open>The last component of a path, trailing slashes ignored: \<^verbatim>\<open>path.basename(p)\<close>.\<close>

definition path_basename :: "path \<Rightarrow> string" where
  "path_basename p =
     rev (takeWhile (\<lambda>c. \<not> is_slash c) (dropWhile is_slash (rev p)))"

text \<open>
  \<^verbatim>\<open>path.basename(p, suffix)\<close>: the last component without the suffix, when the
  component ends with the suffix (compared case-sensitively) and is more than the suffix.
\<close>

definition path_basename_suffix :: "path \<Rightarrow> string \<Rightarrow> string" where
  "path_basename_suffix p sfx =
     (if sfx \<noteq> [] \<and> length sfx \<le> length p then
        if sfx = p then []
        else (let b = path_basename p in
              if endsWith b sfx \<and> b \<noteq> sfx then take (length b - length sfx) b else b)
      else path_basename p)"

text \<open>
  \<^verbatim>\<open>path.extname(p)\<close>: from the last dot of the last component to its end; empty when
  the component has no dot, when the dot is its first character, or when the component
  is \<^verbatim>\<open>..\<close>.
\<close>

definition path_extname :: "path \<Rightarrow> string" where
  "path_extname p =
     (let b = path_basename p;
          ext = rev (takeWhile (\<lambda>c. c \<noteq> CHR ''.'') (rev b))
      in if CHR ''.'' \<notin> set b then []
         else if length ext + 1 = length b then []
         else if b = ''..'' then []
         else CHR ''.'' # ext)"

text \<open>
  \<^verbatim>\<open>path.dirname(p)\<close>: the path up to the slash before the last component; the first
  character is never taken for that slash.
\<close>

definition path_dirname :: "path \<Rightarrow> path" where
  "path_dirname p =
     (case p of [] \<Rightarrow> ''.''
      | c # cs \<Rightarrow>
          (let r = dropWhile (\<lambda>c. \<not> is_slash c) (dropWhile is_slash (rev cs)) in
           if r = [] then (if is_slash c then ''/'' else ''.'')
           else if is_slash c \<and> length r = 1 then ''//''
           else c # rev (tl r)))"

fun split_slash :: "string \<Rightarrow> string \<Rightarrow> string list" where
  "split_slash acc [] = [rev acc]"
| "split_slash acc (c # cs) =
     (if is_slash c then rev acc # split_slash [] cs else split_slash (c # acc) cs)"

text \<open>
  The segment walk of Node's \<^verbatim>\<open>normalizeString\<close>; \<open>res\<close> holds the segments kept
  so far, the last one first.
\<close>

fun normalize_segments :: "bool \<Rightarrow> string list \<Rightarrow> string list \<Rightarrow> string list" where
  "normalize_segments allowAboveRoot res [] = rev res"
| "normalize_segments allowAboveRoot res (s # ss) =
     (if s = [] \<or> s = ''.'' then normalize_segments allowAboveRoot res ss
      else if s = ''..'' then
        (case res of
           [] \<Rightarrow> normalize_segments allowAboveRoot (if allowAboveRoot then [''..''] else []) ss
         | r # rs \<Rightarrow>
             if r = ''..'' then
               normalize_segments allowAboveRoot (if allowAboveRoot then ''..'' # res else res) ss
             else normalize_segments allowAboveRoot rs ss)
      else normalize_segments allowAboveRoot (s # res) ss)"

fun join_slash :: "string list \<Rightarrow> string" where
  "join_slash [] = []"
| "join_slash [s] = s"
| "join_slash (s # t # ss) = s @ ''/'' @ join_slash (t # ss)"

definition normalizeString :: "string \<Rightarrow> bool \<Rightarrow> string" where
  "normalizeString p allowAboveRoot =
     join_slash (normalize_segments allowAboveRoot [] (split_slash [] p))"

definition path_normalize :: "path \<Rightarrow> path" where
  "path_normalize p =
     (if p = [] then ''.''
      else (let isAbsolute = is_slash (hd p);
                trailingSeparator = is_slash (last p);
                q = normalizeString p (\<not> isAbsolute)
            in if q = [] then (if isAbsolute then ''/'' else if trailingSeparator then ''./'' else ''.'')
               else (if isAbsolute then ''/'' else []) @ q @ (if trailingSeparator then ''/'' else [])))"

definition path_join :: "string list \<Rightarrow> path" where
  "path_join args =
     (let joined = join_slash (filter (\<lambda>a. a \<noteq> []) args)
      in if joined = [] then ''.'' else path_normalize joined)"

text \<open>
  \<^verbatim>\<open>path.resolve(...args)\<close>: the arguments are prepended from the right until the
  path is absolute, the working directory last.
\<close>

fun resolve_prepend :: "string list \<Rightarrow> string \<Rightarrow> string" where
  "resolve_prepend [] resolved = resolved"
| "resolve_prepend (a # as) resolved =
     (if a = [] then resolve_prepend as resolved
      else if is_slash (hd a) then a @ ''/'' @ resolved
      else resolve_prepend as (a @ ''/'' @ resolved))"

definition path_resolve :: "path \<Rightarrow> string list \<Rightarrow> path" where
  "path_resolve cwd args =
     (let resolvedPath = resolve_prepend (rev (cwd # args)) [];
          resolvedAbsolute = (resolvedPath \<noteq> [] \<and> is_slash (hd resolvedPath));
          q = normalizeString resolvedPath (\<not> resolvedAbsolute)
      in if resolvedAbsolute then ''/'' @ q else if q \<noteq> [] then q else ''.'')"

section \<open>The operating system, as the script sees it\<close>

text \<open>
  Every rejection of the file-system and child-process calls is an \<^verbatim>\<open>Error\<close> object.
  The script reads only its message; the handler at the end of the script hands the
  object itself to \<^verbatim>\<open>console.error\<close>, which prints it the way the runtime inspects
  values (for an error: name, message and stack).
\<close>

datatype error = Error string

fun errorText :: "error \<Rightarrow> string" where
  "errorText (Error m) = m"

datatype entry_kind = File | Directory | Other

record dirent =
  d_name :: string
  d_kind :: entry_kind

record stats =
  st_isFile :: bool
  st_isDirectory :: bool
  st_mtimeMs :: int

text \<open>
  The calls the script makes on its environment, over a state \<open>'w\<close> of the machine
  (file system, clock, console). A read returns a value or the error it rejects with; a
  call that changes the machine returns the error, if any, and the machine after it.
  \<open>os_rm w p recursive\<close> is \<^verbatim>\<open>rm(p, {recursive, force: true})\<close>, \<open>os_mkdir\<close> is
  \<^verbatim>\<open>mkdir(p, {recursive: true})\<close>, \<open>os_execFile w file args env\<close> runs a program with
  the listed variables set over the inherited environment, \<open>os_now\<close> is
  \<^verbatim>\<open>Date.now()\<close>, \<open>os_log\<close> and \<open>os_error\<close> are the two console streams, and
  \<open>os_inspect\<close> is the text the console prints for an error object.
\<close>

record 'w os =
  os_cwd :: path
  os_readdir :: "'w \<Rightarrow> path \<Rightarrow> error + dirent list"
  os_stat :: "'w \<Rightarrow> path \<Rightarrow> error + stats"
  os_rm :: "'w \<Rightarrow> path \<Rightarrow> bool \<Rightarrow> error option \<times> 'w"
  os_mkdir :: "'w \<Rightarrow> path \<Rightarrow> error option \<times> 'w"
  os_chmod :: "'w \<Rightarrow> path \<Rightarrow> nat \<Rightarrow> error option \<times> 'w"
  os_execFile :: "'w \<Rightarrow> string \<Rightarrow> string list \<Rightarrow> (string \<times> string) list \<Rightarrow> error option \<times> 'w"
  os_now :: "'w \<Rightarrow> nat"
  os_log :: "'w \<Rightarrow> string \<Rightarrow> 'w"
  os_error :: "'w \<Rightarrow> string \<Rightarrow> 'w"
  os_inspect :: "error \<Rightarrow> string"

definition UPLOAD_DIR :: "'w os \<Rightarrow> path" where
  "UPLOAD_DIR os = path_resolve (os_cwd os) [os_cwd os, ''upload'']"

section \<open>The script\<close>

definition isRealZipPath :: "path \<Rightarrow> bool" where
  "isRealZipPath filePath =
     (if toLowerCase (path_extname filePath) \<noteq> ''.zip'' then False
      else let base = path_basename filePath in
        if startsWith base ''._'' then False
        else if str_includes filePath ''/__MACOSX/''
                \<or> str_includes filePath ([CHR 0x5C] @ ''__MACOSX'' @ [CHR 0x5C]) then False
        else True)"

text \<open>
  The work stack of both walks is a list with its top first: \<^verbatim>\<open>push\<close> conses,
  \<^verbatim>\<open>pop\<close> takes the head. A walk that never empties its stack has no result
  (\<open>None\<close>).
\<close>

fun listFiles_entries :: "path \<Rightarrow> dirent list \<Rightarrow> path list \<Rightarrow> path list \<Rightarrow> path list \<times> path list" where
  "listFiles_entries current [] stack out = (stack, out)"
| "listFiles_entries current (entry # entries) stack out =
     (let fullPath = path_join [current, d_name entry] in
      if d_kind entry = Directory then listFiles_entries current entries (fullPath # stack) out
      else if d_kind entry = File then listFiles_entries current entries stack (out @ [fullPath])
      else listFiles_entries current entries stack out)"

partial_function (option) listFiles_while ::
  "'w os \<Rightarrow> 'w \<Rightarrow> path list \<Rightarrow> path list \<Rightarrow> (error + path list) option" where
  "listFiles_while os w stack out =
     (case stack of
        [] \<Rightarrow> Some (Inr out)
      | current # rest \<Rightarrow>
          (case os_readdir os w current of
             Inl e \<Rightarrow> Some (Inl e)
           | Inr entries \<Rightarrow>
               (case listFiles_entries current entries rest out of
                  (stack', out') \<Rightarrow> listFiles_while os w stack' out')))"

definition listFilesRecursive :: "'w os \<Rightarrow> 'w \<Rightarrow> path \<Rightarrow> (error + path list) option" where
  "listFilesRecursive os w dirPath = listFiles_while os w [dirPath] []"

fun listDirs_entries :: "path \<Rightarrow> dirent list \<Rightarrow> path list \<Rightarrow> path list \<Rightarrow> path list \<times> path list" where
  "listDirs_entries current [] stack out = (stack, out)"
| "listDirs_entries current (entry # entries) stack out =
     (if d_kind entry \<noteq> Directory then listDirs_entries current entries stack out
      else let fullPath = path_join [current, d_name entry] in
        listDirs_entries current entries (fullPath # stack) (out @ [fullPath]))"

partial_function (option) listDirs_while ::
  "'w os \<Rightarrow> 'w \<Rightarrow> path list \<Rightarrow> path list \<Rightarrow> (error + path list) option" where
  "listDirs_while os w stack out =
     (case stack of
        [] \<Rightarrow> Some (Inr out)
      | current # rest \<Rightarrow>
          (case os_readdir os w current of
             Inl e \<Rightarrow> Some (Inl e)
           | Inr entries \<Rightarrow>
               (case listDirs_entries current entries rest out of
                  (stack', out') \<Rightarrow> listDirs_while os w stack' out')))"

definition listDirsRecursive :: "'w os \<Rightarrow> 'w \<Rightarrow> path \<Rightarrow> (error + path list) option" where
  "listDirsRecursive os w dirPath = listDirs_while os w [dirPath] []"

definition buildFallbackDirPath :: "nat \<Rightarrow> path \<Rightarrow> path" where
  "buildFallbackDirPath now preferredDir =
     (let parent = path_dirname preferredDir;
          base = path_basename preferredDir
      in path_join [parent, base @ ''_'' @ show_nat now])"

text \<open>The \<^verbatim>\<open>catch\<close> block of \<^verbatim>\<open>prepareEmptyDir\<close>, entered with the error caught.\<close>

definition prepareEmptyDir_catch :: "'w os \<Rightarrow> 'w \<Rightarrow> path \<Rightarrow> error \<Rightarrow> (error + path) \<times> 'w" where
  "prepareEmptyDir_catch os w preferredDir err =
     (let fallbackDir = buildFallbackDirPath (os_now os w) preferredDir in
      case os_mkdir os w fallbackDir of
        (Some e, w1) \<Rightarrow> (Inl e, w1)
      | (None, w1) \<Rightarrow>
          (let w2 = os_log os w1 (''[zip:extract] cannot reuse output dir ('' @ preferredDir
                      @ ''); using fallback: '' @ fallbackDir);
               w3 = os_log os w2 (''[zip:extract] reason: '' @ errorText err)
           in (Inr fallbackDir, w3)))"

definition prepareEmptyDir :: "'w os \<Rightarrow> 'w \<Rightarrow> path \<Rightarrow> (error + path) \<times> 'w" where
  "prepareEmptyDir os w preferredDir =
     (case os_rm os w preferredDir True of
        (Some err, w1) \<Rightarrow> prepareEmptyDir_catch os w1 preferredDir err
      | (None, w1) \<Rightarrow>
          (case os_mkdir os w1 preferredDir of
             (Some err, w2) \<Rightarrow> prepareEmptyDir_catch os w2 preferredDir err
           | (None, w2) \<Rightarrow> (Inr preferredDir, w2)))"

definition unzipToDir :: "'w os \<Rightarrow> 'w \<Rightarrow> path \<Rightarrow> path \<Rightarrow> (error + path) \<times> 'w" where
  "unzipToDir os w zipPath preferredOutputDir =
     (case prepareEmptyDir os w preferredOutputDir of
        (Inl e, w1) \<Rightarrow> (Inl e, w1)
      | (Inr outputDir, w1) \<Rightarrow>
          (case os_execFile os w1 ''unzip'' [''-o'', zipPath, ''-d'', outputDir]
                  [(''LANG'', ''C''), (''LC_ALL'', ''C''), (''LC_CTYPE'', ''C'')] of
             (None, w2) \<Rightarrow> (Inr outputDir, w2)
           | (Some unzipErr, w2) \<Rightarrow>
               (let unzipMsg = errorText unzipErr;
                    w3 = os_log os w2 ''[zip:extract] unzip failed, retrying with ditto...'';
                    w4 = os_log os w3 (''[zip:extract] unzip reason: '' @ unzipMsg)
                in case os_execFile os w4 ''ditto'' [''-x'', ''-k'', zipPath, outputDir] [] of
                     (None, w5) \<Rightarrow>
                       (Inr outputDir, os_log os w5 ''[zip:extract] ditto fallback succeeded.'')
                   | (Some dittoErr, w5) \<Rightarrow>
                       (let dittoMsg = errorText dittoErr in
                        (Inl (Error (''Both unzip and ditto failed.'' @ [CHR 0x0A] @ ''- unzip: ''
                               @ unzipMsg @ [CHR 0x0A] @ ''- ditto: '' @ dittoMsg)), w5)))))"

definition isMacMetadataFile :: "path \<Rightarrow> bool" where
  "isMacMetadataFile filePath =
     (let base = path_basename filePath in base = ''.DS_Store'' \<or> startsWith base ''._'')"

text \<open>The two \<^verbatim>\<open>for\<close> loops of \<^verbatim>\<open>cleanupMacArtifacts\<close>, with the counter they add to.\<close>

fun cleanup_files :: "'w os \<Rightarrow> 'w \<Rightarrow> path list \<Rightarrow> nat \<Rightarrow> (error + nat) \<times> 'w" where
  "cleanup_files os w [] removedFiles = (Inr removedFiles, w)"
| "cleanup_files os w (filePath # files) removedFiles =
     (if \<not> isMacMetadataFile filePath then cleanup_files os w files removedFiles
      else case os_rm os w filePath False of
             (Some e, w1) \<Rightarrow> (Inl e, w1)
           | (None, w1) \<Rightarrow> cleanup_files os w1 files (removedFiles + 1))"

fun cleanup_dirs :: "'w os \<Rightarrow> 'w \<Rightarrow> path list \<Rightarrow> nat \<Rightarrow> (error + nat) \<times> 'w" where
  "cleanup_dirs os w [] removedDirs = (Inr removedDirs, w)"
| "cleanup_dirs os w (dirPath # dirs) removedDirs =
     (if path_basename dirPath \<noteq> ''__MACOSX'' then cleanup_dirs os w dirs removedDirs
      else case os_rm os w dirPath True of
             (Some e, w1) \<Rightarrow> (Inl e, w1)
           | (None, w1) \<Rightarrow> cleanup_dirs os w1 dirs (removedDirs + 1))"

text \<open>
  \<^verbatim>\<open>dirs.sort((a, b) => b.length - a.length)\<close>: the sort of the runtime is stable, so
  paths of one length keep the order they were found in.
\<close>

definition sort_deepest_first :: "path list \<Rightarrow> path list" where
  "sort_deepest_first dirs = sort_key (\<lambda>d. - int (length d)) dirs"

definition cleanupMacArtifacts :: "'w os \<Rightarrow> 'w \<Rightarrow> path \<Rightarrow> ((error + nat \<times> nat) \<times> 'w) option" where
  "cleanupMacArtifacts os w rootOutputDir =
     (case listFilesRecursive os w rootOutputDir of
        None \<Rightarrow> None
      | Some (Inl e) \<Rightarrow> Some (Inl e, w)
      | Some (Inr files) \<Rightarrow>
          (case cleanup_files os w files 0 of
             (Inl e, w1) \<Rightarrow> Some (Inl e, w1)
           | (Inr removedFiles, w1) \<Rightarrow>
               (case listDirsRecursive os w1 rootOutputDir of
                  None \<Rightarrow> None
                | Some (Inl e) \<Rightarrow> Some (Inl e, w1)
                | Some (Inr dirs) \<Rightarrow>
                    (case cleanup_dirs os w1 (sort_deepest_first dirs) 0 of
                       (Inl e, w2) \<Rightarrow> Some (Inl e, w2)
                     | (Inr removedDirs, w2) \<Rightarrow> Some (Inr (removedFiles, removedDirs), w2)))))"

text \<open>The mode \<^verbatim>\<open>0o755\<close> is 493.\<close>

fun chmod_dirs :: "'w os \<Rightarrow> 'w \<Rightarrow> path list \<Rightarrow> nat \<Rightarrow> nat \<times> 'w" where
  "chmod_dirs os w [] updated = (updated, w)"
| "chmod_dirs os w (dirPath # dirs) updated =
     (case os_chmod os w dirPath 493 of
        (None, w1) \<Rightarrow> chmod_dirs os w1 dirs (updated + 1)
      | (Some e, w1) \<Rightarrow> chmod_dirs os w1 dirs updated)"

definition makeDirectoriesWritable :: "'w os \<Rightarrow> 'w \<Rightarrow> path \<Rightarrow> ((error + nat) \<times> 'w) option" where
  "makeDirectoriesWritable os w rootDir =
     (case listDirsRecursive os w rootDir of
        None \<Rightarrow> None
      | Some (Inl e) \<Rightarrow> Some (Inl e, w)
      | Some (Inr found) \<Rightarrow>
          (case chmod_dirs os w (rootDir # found) 0 of (updated, w1) \<Rightarrow> Some (Inr updated, w1)))"

text \<open>\<^verbatim>\<open>stat(p).catch(() => null)\<close> followed by \<^verbatim>\<open>info?.isFile()\<close>.\<close>

definition stat_isFile :: "'w os \<Rightarrow> 'w \<Rightarrow> path \<Rightarrow> bool" where
  "stat_isFile os w p = (case os_stat os w p of Inl e \<Rightarrow> False | Inr info \<Rightarrow> st_isFile info)"

definition stat_isDirectory :: "'w os \<Rightarrow> 'w \<Rightarrow> path \<Rightarrow> bool" where
  "stat_isDirectory os w p = (case os_stat os w p of Inl e \<Rightarrow> False | Inr info \<Rightarrow> st_isDirectory info)"

text \<open>
  \<^verbatim>\<open>Promise.all(paths.map(async (zipPath) => ...stat(zipPath)...))\<close>: every path with
  its modification time, or the rejection of the first path whose \<^verbatim>\<open>stat\<close> rejects.
\<close>

fun withMtime :: "'w os \<Rightarrow> 'w \<Rightarrow> path list \<Rightarrow> error + (path \<times> int) list" where
  "withMtime os w [] = Inr []"
| "withMtime os w (zipPath # rest) =
     (case os_stat os w zipPath of
        Inl e \<Rightarrow> Inl e
      | Inr info \<Rightarrow>
          (case withMtime os w rest of
             Inl e \<Rightarrow> Inl e
           | Inr found \<Rightarrow> Inr ((zipPath, st_mtimeMs info) # found)))"

text \<open>\<^verbatim>\<open>withMtime.sort((a, b) => b.mtimeMs - a.mtimeMs)\<close>, a stable sort.\<close>

definition sort_newest_first :: "(path \<times> int) list \<Rightarrow> (path \<times> int) list" where
  "sort_newest_first found = sort_key (\<lambda>x. - snd x) found"

text \<open>\<^verbatim>\<open>Array.from(new Set(xs))\<close>: the first occurrence of every element, in order.\<close>

fun dedupe :: "'a list \<Rightarrow> 'a list \<Rightarrow> 'a list" where
  "dedupe seen [] = []"
| "dedupe seen (x # xs) = (if x \<in> set seen then dedupe seen xs else x # dedupe (x # seen) xs)"

fun join_comma :: "string list \<Rightarrow> string" where
  "join_comma [] = []"
| "join_comma [s] = s"
| "join_comma (s # t # ss) = s @ '', '' @ join_comma (t # ss)"

text \<open>
  \<^verbatim>\<open>resolveZipFromArgs\<close> in three parts: the filter that computes \<^verbatim>\<open>matches\<close>, the
  choice among the matches (from \<^verbatim>\<open>if (matches.length === 1)\<close> to the \<^verbatim>\<open>throw\<close>), and
  the branch they belong to, taken when the trimmed argument is not empty.
\<close>

definition basename_matches :: "string \<Rightarrow> path list \<Rightarrow> path list" where
  "basename_matches cleanArg uploadZips =
     (let normalizedArg = toLowerCase cleanArg;
          normalizedArgZip =
            (if endsWith normalizedArg ''.zip'' then normalizedArg else normalizedArg @ ''.zip'')
      in filter (\<lambda>file. let base = toLowerCase (path_basename file) in
                          base = normalizedArg \<or> base = normalizedArgZip) uploadZips)"

definition choose_match ::
  "'w os \<Rightarrow> 'w \<Rightarrow> string \<Rightarrow> path list \<Rightarrow> path list \<Rightarrow> (error + path) \<times> 'w" where
  "choose_match os w cleanArg uploadZips matches =
     (if length matches = 1 then (Inr (hd matches), w)
      else if length matches > 1 then
        (case withMtime os w matches of
           Inl e \<Rightarrow> (Inl e, w)
         | Inr found \<Rightarrow>
             (let sorted = sort_newest_first found;
                  w1 = os_log os w (''[zip:extract] multiple matches for '' @ [CHR 0x22]
                         @ cleanArg @ [CHR 0x22] @ '', using newest: '' @ fst (hd sorted))
              in (Inr (fst (hd sorted)), w1)))
      else
        (let available = take 12 (dedupe [] (map path_basename uploadZips));
             shown = (if join_comma available = [] then ''(none)'' else join_comma available)
         in (Inl (Error (''zip file not found: '' @ cleanArg
                    @ ''. Available zip files in upload: '' @ shown)), w)))"

definition resolveZip_given :: "'w os \<Rightarrow> 'w \<Rightarrow> string \<Rightarrow> ((error + path) \<times> 'w) option" where
  "resolveZip_given os w cleanArg =
     (let directPath = path_resolve (os_cwd os) [cleanArg] in
      if stat_isFile os w directPath then Some (Inr directPath, w)
      else let uploadPath = path_resolve (os_cwd os) [UPLOAD_DIR os, cleanArg] in
      if stat_isFile os w uploadPath then Some (Inr uploadPath, w)
      else case listFilesRecursive os w (UPLOAD_DIR os) of
        None \<Rightarrow> None
      | Some listed \<Rightarrow>
          (let uploadFiles = (case listed of Inl e \<Rightarrow> [] | Inr files \<Rightarrow> files);
               uploadZips = filter isRealZipPath uploadFiles;
               matches = basename_matches cleanArg uploadZips
           in Some (choose_match os w cleanArg uploadZips matches)))"

text \<open>The branch taken without an argument: the newest zip of the upload folder.\<close>

definition resolveZip_newest :: "'w os \<Rightarrow> 'w \<Rightarrow> ((error + path) \<times> 'w) option" where
  "resolveZip_newest os w =
     (if \<not> stat_isDirectory os w (UPLOAD_DIR os) then
        Some (Inl (Error (''upload folder not found: '' @ UPLOAD_DIR os)), w)
      else case listFilesRecursive os w (UPLOAD_DIR os) of
        None \<Rightarrow> None
      | Some (Inl e) \<Rightarrow> Some (Inl e, w)
      | Some (Inr files) \<Rightarrow>
          (let zips = filter isRealZipPath files in
           if length zips = 0 then
             Some (Inl (Error (''no .zip files found in upload folder: '' @ UPLOAD_DIR os)), w)
           else case withMtime os w zips of
                  Inl e \<Rightarrow> Some (Inl e, w)
                | Inr found \<Rightarrow> Some (Inr (fst (hd (sort_newest_first found))), w)))"

text \<open>
  \<open>zipArg\<close> is \<open>None\<close> when the command line has no such argument
  (\<^verbatim>\<open>undefined\<close>); \<^verbatim>\<open>zipArg?.trim()\<close> is then \<^verbatim>\<open>undefined\<close>, which the test
  \<^verbatim>\<open>if (cleanArg)\<close> takes for false, as it does the empty string.
\<close>

definition resolveZipFromArgs :: "'w os \<Rightarrow> 'w \<Rightarrow> string option \<Rightarrow> ((error + path) \<times> 'w) option" where
  "resolveZipFromArgs os w zipArg =
     (let cleanArg = map_option trim zipArg in
      case cleanArg of
        Some a \<Rightarrow> if a \<noteq> [] then resolveZip_given os w a else resolveZip_newest os w
      | None \<Rightarrow> resolveZip_newest os w)"

record nested_state =
  processed :: "path set"
  nestedZipCount :: nat
  nestedZipFailures :: nat

text \<open>The \<^verbatim>\<open>for\<close> loop of \<^verbatim>\<open>extractNestedZips\<close> over the pending zips.\<close>

fun nested_pending :: "'w os \<Rightarrow> path list \<Rightarrow> nested_state \<Rightarrow> 'w \<Rightarrow> nested_state \<times> 'w" where
  "nested_pending os [] st w = (st, w)"
| "nested_pending os (zipPath # pending) st w =
     (let st1 = st\<lparr>processed := insert zipPath (processed st)\<rparr>;
          base = path_basename_suffix zipPath ''.zip'';
          parent = path_dirname zipPath;
          nestedOutputDir = path_join [parent, base @ ''_extracted'']
      in case unzipToDir os w zipPath nestedOutputDir of
           (Inr resolvedNestedOutputDir, w1) \<Rightarrow>
             nested_pending os pending (st1\<lparr>nestedZipCount := nestedZipCount st1 + 1\<rparr>)
               (os_log os w1 (''[zip:extract] nested zip extracted: '' @ zipPath @ '' -> ''
                              @ resolvedNestedOutputDir))
         | (Inl err, w1) \<Rightarrow>
             nested_pending os pending (st1\<lparr>nestedZipFailures := nestedZipFailures st1 + 1\<rparr>)
               (os_log os
                  (os_log os w1 (''[zip:extract] nested zip skipped (failed to extract): '' @ zipPath))
                  (''[zip:extract] reason: '' @ errorText err)))"

partial_function (option) nested_while ::
  "'w os \<Rightarrow> path \<Rightarrow> nested_state \<Rightarrow> 'w \<Rightarrow> ((error + nested_state) \<times> 'w) option" where
  "nested_while os rootOutputDir st w =
     (case makeDirectoriesWritable os w rootOutputDir of
        None \<Rightarrow> None
      | Some (Inl e, w1) \<Rightarrow> Some (Inl e, w1)
      | Some (Inr updated, w1) \<Rightarrow>
          (case listFilesRecursive os w1 rootOutputDir of
             None \<Rightarrow> None
           | Some (Inl e) \<Rightarrow> Some (Inl e, w1)
           | Some (Inr files) \<Rightarrow>
               (let zips = filter isRealZipPath files;
                    pending = filter (\<lambda>zipPath. zipPath \<notin> processed st) zips
                in if length pending = 0 then Some (Inr st, w1)
                   else (case nested_pending os pending st w1 of
                           (st1, w2) \<Rightarrow> nested_while os rootOutputDir st1 w2))))"

definition extractNestedZips :: "'w os \<Rightarrow> 'w \<Rightarrow> path \<Rightarrow> ((error + nat \<times> nat) \<times> 'w) option" where
  "extractNestedZips os w rootOutputDir =
     (case nested_while os rootOutputDir
             \<lparr>processed = {}, nestedZipCount = 0, nestedZipFailures = 0\<rparr> w of
        None \<Rightarrow> None
      | Some (Inl e, w1) \<Rightarrow> Some (Inl e, w1)
      | Some (Inr st, w1) \<Rightarrow> Some (Inr (nestedZipCount st, nestedZipFailures st), w1))"

text \<open>
  How the process ends: \<open>Completed\<close> when \<^verbatim>\<open>main\<close> returns (exit code 0),
  \<open>Usage_exit\<close> at the \<^verbatim>\<open>process.exit(1)\<close> of the extension check, \<open>Failed\<close> at the
  \<^verbatim>\<open>process.exit(1)\<close> of the handler that catches what \<^verbatim>\<open>main\<close> throws.
\<close>

datatype outcome = Completed | Usage_exit | Failed error

fun exit_code :: "outcome \<Rightarrow> nat" where
  "exit_code Completed = 0"
| "exit_code Usage_exit = 1"
| "exit_code (Failed e) = 1"

definition main_catch :: "'w os \<Rightarrow> 'w \<Rightarrow> error \<Rightarrow> outcome \<times> 'w" where
  "main_catch os w err = (Failed err, os_error os w (''[zip:extract] failed: '' @ os_inspect os err))"

definition os_logs :: "'w os \<Rightarrow> 'w \<Rightarrow> string list \<Rightarrow> 'w" where
  "os_logs os w lines = foldl (os_log os) w lines"

definition summary :: "nat \<Rightarrow> nat \<Rightarrow> nat \<Rightarrow> nat \<Rightarrow> path list \<Rightarrow> path list \<Rightarrow> string list" where
  "summary nestedCount nestedFailures removedFiles removedDirs allFiles allDirs =
     (let zipFiles = filter (\<lambda>file. toLowerCase (path_extname file) = ''.zip'') allFiles;
          nonZipFiles = filter (\<lambda>file. toLowerCase (path_extname file) \<noteq> ''.zip'') allFiles
      in [''[zip:extract] summary:'',
          ''- nested zips extracted: '' @ show_nat nestedCount,
          ''- nested zips failed/skipped: '' @ show_nat nestedFailures,
          ''- mac metadata files removed: '' @ show_nat removedFiles,
          ''- __MACOSX folders removed: '' @ show_nat removedDirs,
          ''- total folders found: '' @ show_nat (length allDirs),
          ''- total files found: '' @ show_nat (length allFiles),
          ''- non-zip files: '' @ show_nat (length nonZipFiles),
          ''- zip files still present: '' @ show_nat (length zipFiles)])"

text \<open>What \<^verbatim>\<open>main\<close> does once the root zip is extracted into \<open>outputDir\<close>.\<close>

definition main_extracted :: "'w os \<Rightarrow> 'w \<Rightarrow> path \<Rightarrow> (outcome \<times> 'w) option" where
  "main_extracted os w outputDir =
     (let w1 = os_logs os w [''[zip:extract] output dir: '' @ outputDir,
                             ''[zip:extract] root zip extracted.''] in
      case makeDirectoriesWritable os w1 outputDir of
        None \<Rightarrow> None
      | Some (Inl e, w2) \<Rightarrow> Some (main_catch os w2 e)
      | Some (Inr writableDirsUpdated, w2) \<Rightarrow>
          (let w3 = os_log os w2 (''[zip:extract] writable directory normalization: ''
                      @ show_nat writableDirsUpdated @ '' dirs updated'') in
           case extractNestedZips os w3 outputDir of
             None \<Rightarrow> None
           | Some (Inl e, w4) \<Rightarrow> Some (main_catch os w4 e)
           | Some (Inr (nestedCount, nestedFailures), w4) \<Rightarrow>
               (case cleanupMacArtifacts os w4 outputDir of
                  None \<Rightarrow> None
                | Some (Inl e, w5) \<Rightarrow> Some (main_catch os w5 e)
                | Some (Inr (removedFiles, removedDirs), w5) \<Rightarrow>
                    (case listFilesRecursive os w5 outputDir of
                       None \<Rightarrow> None
                     | Some (Inl e) \<Rightarrow> Some (main_catch os w5 e)
                     | Some (Inr allFiles) \<Rightarrow>
                         (case listDirsRecursive os w5 outputDir of
                            None \<Rightarrow> None
                          | Some (Inl e) \<Rightarrow> Some (main_catch os w5 e)
                          | Some (Inr allDirs) \<Rightarrow>
                              Some (Completed,
                                    os_logs os w5 (summary nestedCount nestedFailures removedFiles
                                                     removedDirs allFiles allDirs)))))))"

definition main :: "'w os \<Rightarrow> 'w \<Rightarrow> string option \<Rightarrow> string option \<Rightarrow> (outcome \<times> 'w) option" where
  "main os w zipArg outputArg =
     (case resolveZipFromArgs os w zipArg of
        None \<Rightarrow> None
      | Some (Inl e, w1) \<Rightarrow> Some (main_catch os w1 e)
      | Some (Inr zipPath, w1) \<Rightarrow>
          if toLowerCase (path_extname zipPath) \<noteq> ''.zip'' then
            Some (Usage_exit, os_error os w1 (''[zip:extract] input is not a .zip file: '' @ zipPath))
          else
            (let defaultOutput = path_join [path_dirname zipPath,
                                            path_basename_suffix zipPath ''.zip'' @ ''_extracted''];
                 outputDir = path_resolve (os_cwd os)
                               [case outputArg of None \<Rightarrow> defaultOutput | Some given \<Rightarrow> given];
                 w2 = os_logs os w1 [''[zip:extract] source zip: '' @ zipPath,
                                     ''[zip:extract] requested output dir: '' @ outputDir]
             in case unzipToDir os w2 zipPath outputDir of
                  (Inl e, w3) \<Rightarrow> Some (main_catch os w3 e)
                | (Inr actualDir, w3) \<Rightarrow> main_extracted os w3 actualDir))"

declare listFiles_while.simps [code]
declare listDirs_while.simps [code]
declare nested_while.simps [code]

section \<open>Observing the calls of a run\<close>

text \<open>
  Every call of the script that changes the machine, in the order made. \<open>traced os\<close>
  is the environment \<open>os\<close> with a journal beside its state: a run of the unchanged
  script on it records the calls it makes.
\<close>

datatype call =
  Rm path bool | Mkdir path | Chmod path nat | Exec string "string list" | Log string | Err string

definition traced :: "'w os \<Rightarrow> ('w \<times> call list) os" where
  "traced os =
     \<lparr>os_cwd = os_cwd os,
      os_readdir = (\<lambda>(w, tr) p. os_readdir os w p),
      os_stat = (\<lambda>(w, tr) p. os_stat os w p),
      os_rm = (\<lambda>(w, tr) p r. case os_rm os w p r of (e, w1) \<Rightarrow> (e, (w1, tr @ [Rm p r]))),
      os_mkdir = (\<lambda>(w, tr) p. case os_mkdir os w p of (e, w1) \<Rightarrow> (e, (w1, tr @ [Mkdir p]))),
      os_chmod = (\<lambda>(w, tr) p m. case os_chmod os w p m of (e, w1) \<Rightarrow> (e, (w1, tr @ [Chmod p m]))),
      os_execFile = (\<lambda>(w, tr) f args env.
         case os_execFile os w f args env of (e, w1) \<Rightarrow> (e, (w1, tr @ [Exec f args]))),
      os_now = (\<lambda>(w, tr). os_now os w),
      os_log = (\<lambda>(w, tr) s. (os_log os w s, tr @ [Log s])),
      os_error = (\<lambda>(w, tr) s. (os_error os w s, tr @ [Err s])),
      os_inspect = os_inspect os\<rparr>"


fun rm_calls :: "call list \<Rightarrow> path list" where
  "rm_calls [] = []"
| "rm_calls (Rm p r # tr) = p # rm_calls tr"
| "rm_calls (c # tr) = rm_calls tr"

section \<open>Machines for the examples\<close>

text \<open>
  A machine whose file system is a fixed table: the directories with their entries, the
  files with their modification times; removing or creating the listed paths is
  refused, the listed archives are corrupt for both tools (the second tool,
  \<^verbatim>\<open>ditto\<close>, is not installed), and nothing a call does shows in a later listing.
\<close>

record scenario =
  sc_dirs :: "(path \<times> dirent list) list"
  sc_files :: "(path \<times> int) list"
  sc_no_stat :: "path list"
  sc_rm_fails :: "path list"
  sc_mkdir_fails :: "path list"
  sc_corrupt :: "path list"

definition fixed_os :: "scenario \<Rightarrow> unit os" where
  "fixed_os sc =
     \<lparr>os_cwd = ''/home/u'',
      os_readdir = (\<lambda>w p. case map_of (sc_dirs sc) p of
                            None \<Rightarrow> Inl (Error (''ENOENT: '' @ p)) | Some es \<Rightarrow> Inr es),
      os_stat = (\<lambda>w p.
         if p \<in> set (sc_no_stat sc) then Inl (Error (''EACCES: '' @ p))
         else case map_of (sc_files sc) p of
                Some t \<Rightarrow> Inr \<lparr>st_isFile = True, st_isDirectory = False, st_mtimeMs = t\<rparr>
              | None \<Rightarrow>
                  (case map_of (sc_dirs sc) p of
                     Some es \<Rightarrow> Inr \<lparr>st_isFile = False, st_isDirectory = True, st_mtimeMs = 0\<rparr>
                   | None \<Rightarrow> Inl (Error (''ENOENT: '' @ p)))),
      os_rm = (\<lambda>w p r. (if p \<in> set (sc_rm_fails sc) then Some (Error (''EACCES: '' @ p)) else None, w)),
      os_mkdir = (\<lambda>w p. (if p \<in> set (sc_mkdir_fails sc) then Some (Error (''EACCES: '' @ p)) else None, w)),
      os_chmod = (\<lambda>w p m. (None, w)),
      os_execFile = (\<lambda>w f args env.
         (if f = ''unzip'' \<and> length args = 4 \<and> args ! 1 \<notin> set (sc_corrupt sc) then None
          else Some (Error (f @ '' failed'')), w)),
      os_now = (\<lambda>w. 7),
      os_log = (\<lambda>w s. w),
      os_error = (\<lambda>w s. w),
      os_inspect = (\<lambda>e. ''Error: '' @ errorText e)\<rparr>"

definition file_entry :: "string \<Rightarrow> dirent" where
  "file_entry n = \<lparr>d_name = n, d_kind = File\<rparr>"

definition dir_entry :: "string \<Rightarrow> dirent" where
  "dir_entry n = \<lparr>d_name = n, d_kind = Directory\<rparr>"

text \<open>
  An upload folder with two archives and a text file; the extracted tree of the newer
  archive holds two sound archives, a corrupt one and the metadata of a Mac.
\<close>

definition upload_sc :: scenario where
  "upload_sc =
     \<lparr>sc_dirs =
        [(''/home/u/upload'', [file_entry ''old.zip'', file_entry ''pack.zip'', file_entry ''notes.txt'']),
         (''/home/u/upload/pack_extracted'',
            [file_entry ''a.zip'', file_entry ''bad.zip'', file_entry ''b.zip'',
             file_entry ''.DS_Store'', dir_entry ''__MACOSX'']),
         (''/home/u/upload/pack_extracted/__MACOSX'', [file_entry ''._a.zip''])],
      sc_files = [(''/home/u/upload/old.zip'', 3), (''/home/u/upload/pack.zip'', 5),
                  (''/home/u/upload/notes.txt'', 9)],
      sc_no_stat = [], sc_rm_fails = [], sc_mkdir_fails = [],
      sc_corrupt = [''/home/u/upload/pack_extracted/bad.zip'']\<rparr>"

text \<open>The same tree on a machine that refuses to remove one path, and to create another.\<close>

definition refusing :: "path list \<Rightarrow> path list \<Rightarrow> scenario" where
  "refusing no_rm no_mkdir = upload_sc\<lparr>sc_rm_fails := no_rm, sc_mkdir_fails := no_mkdir\<rparr>"

text \<open>\<open>nested_in q p\<close>: the path \<open>q\<close> lies inside the directory \<open>p\<close>.\<close>

definition nested_in :: "path \<Rightarrow> path \<Rightarrow> bool" where
  "nested_in q p = startsWith q (p @ ''/'')"

text \<open>
  A tree \<^verbatim>\<open>/out\<close> with two folders, each holding a \<^verbatim>\<open>__MACOSX\<close> directory; the
  argument is the order in which \<^verbatim>\<open>readdir\<close> lists the two folders.
\<close>

definition two_macosx :: "string list \<Rightarrow> scenario" where
  "two_macosx names =
     \<lparr>sc_dirs = [(''/out'', map dir_entry names),
                 (''/out/a'', [dir_entry ''__MACOSX'']), (''/out/b'', [dir_entry ''__MACOSX'']),
                 (''/out/a/__MACOSX'', []), (''/out/b/__MACOSX'', [])],
      sc_files = [], sc_no_stat = [], sc_rm_fails = [], sc_mkdir_fails = [], sc_corrupt = []\<rparr>"

text \<open>
  Two upload folders: one whose only archive is \<^verbatim>\<open>x.zip.zip\<close>, and one with
  \<^verbatim>\<open>a.zip\<close> beside a newer \<^verbatim>\<open>sub/A.ZIP\<close>.
\<close>

definition suffix_sc :: scenario where
  "suffix_sc =
     \<lparr>sc_dirs = [(''/home/u/upload'', [file_entry ''x.zip.zip''])],
      sc_files = [(''/home/u/upload/x.zip.zip'', 1)],
      sc_no_stat = [], sc_rm_fails = [], sc_mkdir_fails = [], sc_corrupt = []\<rparr>"

definition twins_sc :: scenario where
  "twins_sc =
     \<lparr>sc_dirs = [(''/home/u/upload'', [file_entry ''a.zip'', dir_entry ''sub'']),
                 (''/home/u/upload/sub'', [file_entry ''A.ZIP''])],
      sc_files = [(''/home/u/upload/a.zip'', 3), (''/home/u/upload/sub/A.ZIP'', 8)],
      sc_no_stat = [], sc_rm_fails = [], sc_mkdir_fails = [], sc_corrupt = []\<rparr>"

section \<open>Absolute paths by their segments\<close>

text \<open>
  The path \<^verbatim>\<open>/s1/s2/.../sn\<close> of the segments \<open>[s1, ..., sn]\<close>, and the segments a
  directory listing can name: not empty, without a slash, neither \<^verbatim>\<open>.\<close> nor \<^verbatim>\<open>..\<close>.
\<close>

definition abs_path :: "string list \<Rightarrow> path" where
  "abs_path segs = concat (map (\<lambda>s. CHR ''/'' # s) segs)"

definition segment :: "string \<Rightarrow> bool" where
  "segment s = (s \<noteq> [] \<and> CHR ''/'' \<notin> set s \<and> s \<noteq> ''.'' \<and> s \<noteq> ''..'')"

text \<open>
  A machine with a zip archive that contains itself: \<^verbatim>\<open>/out/r.zip\<close> holds one
  file, a copy of \<^verbatim>\<open>r.zip\<close>. The state is the number \<open>n\<close> of directories
  \<^verbatim>\<open>r_extracted\<close> nested below \<^verbatim>\<open>/out\<close> so far; each of them, and \<^verbatim>\<open>/out\<close>,
  holds a copy of the archive. Extracting a copy into the next directory of the chain
  creates that directory with its copy; removing a directory of the chain removes
  what is below it; only the chain is modelled, and \<^verbatim>\<open>ditto\<close> is not installed.
  As on every file system, a path has a greatest length, here 50 characters: a call
  with a longer path is rejected.
\<close>

definition quine_dir :: "nat \<Rightarrow> path" where
  "quine_dir k = abs_path (''out'' # replicate k ''r_extracted'')"

definition quine_zip :: "nat \<Rightarrow> path" where
  "quine_zip k = abs_path (''out'' # replicate k ''r_extracted'' @ [''r.zip''])"

definition too_long :: "path \<Rightarrow> error option" where
  "too_long p = (if 50 < length p then Some (Error (''ENAMETOOLONG: '' @ p)) else None)"

definition quine_os :: "nat os" where
  "quine_os =
     \<lparr>os_cwd = ''/'',
      os_readdir = (\<lambda>n p.
         case too_long p of Some e \<Rightarrow> Inl e
         | None \<Rightarrow>
             if p \<in> set (map quine_dir [0..<n]) then Inr [file_entry ''r.zip'', dir_entry ''r_extracted'']
             else if p = quine_dir n then Inr [file_entry ''r.zip'']
             else Inl (Error (''ENOENT: '' @ p))),
      os_stat = (\<lambda>n p.
         case too_long p of Some e \<Rightarrow> Inl e
         | None \<Rightarrow>
             if p \<in> set (map quine_zip [0..<Suc n])
             then Inr \<lparr>st_isFile = True, st_isDirectory = False, st_mtimeMs = 0\<rparr>
             else if p \<in> set (map quine_dir [0..<Suc n])
             then Inr \<lparr>st_isFile = False, st_isDirectory = True, st_mtimeMs = 0\<rparr>
             else Inl (Error (''ENOENT: '' @ p))),
      os_rm = (\<lambda>n p r.
         case too_long p of Some e \<Rightarrow> (Some e, n)
         | None \<Rightarrow>
             (None, case find (\<lambda>k. quine_dir (Suc k) = p) [0..<n] of Some k \<Rightarrow> k | None \<Rightarrow> n)),
      os_mkdir = (\<lambda>n p. (too_long p, n)),
      os_chmod = (\<lambda>n p m. (too_long p, n)),
      os_execFile = (\<lambda>n f args env.
         if f = ''unzip'' \<and> length args = 4 \<and> args ! 1 \<in> set (map quine_zip [0..<Suc n])
            \<and> args ! 3 \<in> set (map quine_dir [0..<Suc (Suc n)])
            \<and> too_long (args ! 1) = None \<and> too_long (args ! 3 @ ''/r.zip'') = None
         then (None, if args ! 3 = quine_dir (Suc n) then Suc n else n)
         else (Some (Error (f @ '' failed'')), n)),
      os_now = (\<lambda>n. 0),
      os_log = (\<lambda>n s. n),
      os_error = (\<lambda>n s. n),
      os_inspect = (\<lambda>e. ''Error: '' @ errorText e)\<rparr>"

section \<open>Limits of paths\<close>

text \<open>
  A file system has a greatest length \<open>L\<close> of a path and a greatest length \<open>N\<close> of a
  name: \<^verbatim>\<open>readdir\<close> rejects a longer path, and lists no longer name.
\<close>

definition path_limits :: "'w os \<Rightarrow> nat \<Rightarrow> nat \<Rightarrow> bool" where
  "path_limits os L N =
     (\<forall>w d entries. os_readdir os w d = Inr entries \<longrightarrow>
        length d \<le> L \<and> (\<forall>e\<in>set entries. length (d_name e) \<le> N))"

section \<open>Proper listings\<close>

text \<open>
  \<open>root_path segs\<close> is the absolute path of the segments, \<^verbatim>\<open>/\<close> when there are none.
  On a machine with proper listings \<^verbatim>\<open>readdir\<close> names every entry of a directory
  once, by a segment.
\<close>

definition root_path :: "string list \<Rightarrow> path" where
  "root_path segs = (if segs = [] then ''/'' else abs_path segs)"

definition proper_listings :: "'w os \<Rightarrow> bool" where
  "proper_listings os =
     (\<forall>w d entries. os_readdir os w d = Inr entries \<longrightarrow>
        distinct (map d_name entries) \<and> (\<forall>e\<in>set entries. segment (d_name e)))"

text \<open>
  The invariant of a walk from the directory of the segments \<open>r\<close>, on the segment
  lists of the paths: \<open>S\<close> the stack, \<open>V\<close> the directories read so far, \<open>F\<close> the files
  put out. No directory is both waiting and read, or there twice; every directory lies
  below the root and, unless it is the root, in a directory read before; no file is
  put out twice, and every file lies in a directory read before.
\<close>

definition walk_inv ::
  "string list \<Rightarrow> string list list \<Rightarrow> string list list \<Rightarrow> string list list \<Rightarrow> bool" where
  "walk_inv r S V F =
     (distinct (S @ V)
      \<and> (\<forall>x\<in>set S \<union> set V. (\<forall>s\<in>set x. segment s) \<and> take (length r) x = r
                                 \<and> (x \<noteq> r \<longrightarrow> butlast x \<in> set V))
      \<and> distinct F
      \<and> (\<forall>f\<in>set F. (\<forall>s\<in>set f. segment s) \<and> f \<noteq> [] \<and> butlast f \<in> set V))"

section \<open>Resolving the archive\<close>

lemma hd_sort_key_least:
  assumes "xs \<noteq> []"
  shows "hd (sort_key f xs) \<in> set xs \<and> (\<forall>x\<in>set xs. f (hd (sort_key f xs)) \<le> f x)"
proof -
  obtain y ys where ys: "sort_key f xs = y # ys"
    using assms by (cases "sort_key f xs") (auto dest: arg_cong [where f = set])
  have "sorted (map f (y # ys))" using sorted_sort_key [of f xs] ys by simp
  then have le: "\<forall>x\<in>set (y # ys). f y \<le> f x" by auto
  have "set (y # ys) = set xs" using set_sort [of f xs] ys by simp
  with le ys show ?thesis by auto
qed

lemma withMtime_Inr:
  "withMtime os w ps = Inr found \<Longrightarrow>
     map fst found = ps \<and>
     (\<forall>x\<in>set found. \<exists>info. os_stat os w (fst x) = Inr info \<and> st_mtimeMs info = snd x)"
  by (induction ps arbitrary: found) (auto split: sum.splits)

lemma newest_of:
  assumes "withMtime os w ps = Inr found" "ps \<noteq> []"
  shows "fst (hd (sort_newest_first found)) \<in> set ps \<and>
         (\<forall>x\<in>set found. snd x \<le> snd (hd (sort_newest_first found))) \<and>
         hd (sort_newest_first found) \<in> set found"
proof -
  from withMtime_Inr [OF assms(1)] have m: "map fst found = ps" by simp
  with assms(2) have ne: "found \<noteq> []" by auto
  from hd_sort_key_least [OF ne, of "\<lambda>x. - snd x"]
  have h: "hd (sort_newest_first found) \<in> set found"
    and l: "\<forall>x\<in>set found. snd x \<le> snd (hd (sort_newest_first found))"
    by (auto simp: sort_newest_first_def)
  from h m have "fst (hd (sort_newest_first found)) \<in> set ps" by force
  with h l show ?thesis by simp
qed

lemma isRealZipPath_ext: "isRealZipPath p \<Longrightarrow> toLowerCase (path_extname p) = ''.zip''"
  by (simp add: isRealZipPath_def split: if_splits)

lemma resolveZip_newest_Inr:
  assumes "resolveZip_newest os w = Some (Inr p, w1)"
  shows "w1 = w \<and> stat_isDirectory os w (UPLOAD_DIR os) \<and>
         (\<exists>files found t.
            listFilesRecursive os w (UPLOAD_DIR os) = Some (Inr files) \<and>
            withMtime os w (filter isRealZipPath files) = Inr found \<and>
            p \<in> set files \<and> isRealZipPath p \<and> (p, t) \<in> set found \<and>
            (\<forall>x\<in>set found. snd x \<le> t))"
proof -
  from assms have d: "stat_isDirectory os w (UPLOAD_DIR os)"
    by (auto simp: resolveZip_newest_def split: if_splits)
  from assms d obtain files where f: "listFilesRecursive os w (UPLOAD_DIR os) = Some (Inr files)"
    by (auto simp: resolveZip_newest_def split: option.splits sum.splits)
  let ?zips = "filter isRealZipPath files"
  from assms d f have ne: "?zips \<noteq> []"
    by (auto simp: resolveZip_newest_def Let_def split: if_splits)
  from assms d f ne obtain found where m: "withMtime os w ?zips = Inr found"
    by (auto simp: resolveZip_newest_def Let_def split: sum.splits)
  from assms d f ne m have r: "p = fst (hd (sort_newest_first found))" and w: "w1 = w"
    by (auto simp: resolveZip_newest_def Let_def)
  from newest_of [OF m ne] r
  have "p \<in> set ?zips" "\<forall>x\<in>set found. snd x \<le> snd (hd (sort_newest_first found))"
    "(p, snd (hd (sort_newest_first found))) \<in> set found"
    by auto
  with d f m w show ?thesis by auto
qed

lemma main_catch_not_usage: "main_catch os w e \<noteq> (Usage_exit, w2)"
  by (simp add: main_catch_def)

lemma main_extracted_not_usage: "main_extracted os w d \<noteq> Some (Usage_exit, w2)"
  by (auto simp: main_extracted_def Let_def main_catch_def split: option.splits sum.splits prod.splits)

lemma basename_matches_subset: "set (basename_matches a zips) \<subseteq> set zips"
  by (auto simp: basename_matches_def Let_def)

lemma choose_match_Inr:
  assumes "choose_match os w a zips ms = (Inr p, w1)"
  shows "p \<in> set ms"
proof (cases "length ms = 1")
  case True
  with assms have "p = hd ms" by (simp add: choose_match_def)
  moreover from True have "ms \<noteq> []" by auto
  ultimately show ?thesis by simp
next
  case False
  with assms have g: "length ms > 1" by (auto simp: choose_match_def Let_def split: if_splits)
  with assms False obtain found where f: "withMtime os w ms = Inr found"
    and p: "p = fst (hd (sort_newest_first found))"
    by (auto simp: choose_match_def Let_def split: sum.splits)
  from g have "ms \<noteq> []" by auto
  from newest_of [OF f this] p show ?thesis by simp
qed

lemma resolveZip_given_Inr:
  assumes "resolveZip_given os w a = Some (Inr p, w1)"
  shows "(w1 = w \<and> stat_isFile os w p) \<or> isRealZipPath p"
proof (cases "stat_isFile os w (path_resolve (os_cwd os) [a])")
  case True
  with assms show ?thesis by (simp add: resolveZip_given_def)
next
  case d: False
  show ?thesis
  proof (cases "stat_isFile os w (path_resolve (os_cwd os) [UPLOAD_DIR os, a])")
    case True
    with assms d show ?thesis by (simp add: resolveZip_given_def Let_def)
  next
    case u: False
    from assms d u obtain listed where l: "listFilesRecursive os w (UPLOAD_DIR os) = Some listed"
      by (auto simp: resolveZip_given_def Let_def split: option.splits)
    define zips where "zips = filter isRealZipPath (case listed of Inl e \<Rightarrow> [] | Inr files \<Rightarrow> files)"
    from assms d u l have "choose_match os w a zips (basename_matches a zips) = (Inr p, w1)"
      by (simp add: resolveZip_given_def Let_def zips_def)
    from choose_match_Inr [OF this] basename_matches_subset have "p \<in> set zips" by blast
    then show ?thesis by (simp add: zips_def)
  qed
qed

lemma resolve_not_zip_unchanged:
  assumes "resolveZipFromArgs os w zipArg = Some (Inr p, w1)"
    and "toLowerCase (path_extname p) \<noteq> ''.zip''"
  shows "w1 = w"
proof -
  have nz: "\<not> isRealZipPath p" using assms(2) isRealZipPath_ext by blast
  from assms(1) have "resolveZip_newest os w = Some (Inr p, w1)
      \<or> (\<exists>a. resolveZip_given os w a = Some (Inr p, w1))"
    by (auto simp: resolveZipFromArgs_def Let_def split: option.splits if_splits)
  then show ?thesis
  proof
    assume "resolveZip_newest os w = Some (Inr p, w1)"
    from resolveZip_newest_Inr [OF this] show ?thesis by simp
  next
    assume "\<exists>a. resolveZip_given os w a = Some (Inr p, w1)"
    then obtain a where "resolveZip_given os w a = Some (Inr p, w1)" ..
    from resolveZip_given_Inr [OF this] nz show ?thesis by auto
  qed
qed

text \<open>
  C10. Without a zip argument every path the resolution returns passes the real-zip
  test, so its lower-cased extension is \<^verbatim>\<open>.zip\<close>, and \<^verbatim>\<open>main\<close> never leaves through
  the exit of the extension check.
\<close>

theorem C10_no_argument_is_zip:
  "(\<forall>p w1. resolveZipFromArgs os w None = Some (Inr p, w1) \<longrightarrow>
       isRealZipPath p \<and> toLowerCase (path_extname p) = ''.zip'')
   \<and> (\<forall>w2. main os w None outputArg \<noteq> Some (Usage_exit, w2))"
proof -
  have a: "\<forall>p w1. resolveZipFromArgs os w None = Some (Inr p, w1) \<longrightarrow>
       isRealZipPath p \<and> toLowerCase (path_extname p) = ''.zip''"
    using resolveZip_newest_Inr [of os w] isRealZipPath_ext
    by (auto simp: resolveZipFromArgs_def)
  have b: "main os w None outputArg \<noteq> Some (Usage_exit, w2)" for w2
  proof (cases "resolveZipFromArgs os w None")
    case None
    then show ?thesis by (simp add: main_def)
  next
    case (Some r)
    obtain res w1 where r: "r = (res, w1)" by (cases r)
    show ?thesis
    proof (cases res)
      case (Inl e)
      with Some r show ?thesis by (simp add: main_def main_catch_not_usage)
    next
      case (Inr p)
      with Some r a have z: "toLowerCase (path_extname p) = ''.zip''" by simp
      with Some r Inr show ?thesis
        by (simp add: main_def Let_def main_catch_not_usage main_extracted_not_usage
            split: prod.splits sum.splits)
    qed
  qed
  from a b show ?thesis by blast
qed

theorem C10_no_argument_is_zip_witness:
  "resolveZipFromArgs (fixed_os upload_sc) () None = Some (Inr ''/home/u/upload/pack.zip'', ())
   \<and> isRealZipPath ''/home/u/upload/pack.zip''
   \<and> toLowerCase (path_extname ''/home/u/upload/pack.zip'') = ''.zip''
   \<and> main (fixed_os upload_sc) () None None \<noteq> Some (Usage_exit, ())"
proof -
  have r: "resolveZipFromArgs (fixed_os upload_sc) () None = Some (Inr ''/home/u/upload/pack.zip'', ())"
    by code_simp
  from C10_no_argument_is_zip [of "fixed_os upload_sc" "()" None] r show ?thesis by blast
qed

text \<open>
  C8. When the argument resolves to a file whose extension is not \<^verbatim>\<open>.zip\<close>, the
  program leaves with exit code 1 at the extension check; all it has done by then is
  write the one line on the error stream: no directory is removed or created, no
  tool is run.
\<close>

theorem C8_non_zip_argument:
  assumes "resolveZipFromArgs (traced os) (w, tr) zipArg = Some (Inr zipPath, w1)"
    and "toLowerCase (path_extname zipPath) \<noteq> ''.zip''"
  shows "main (traced os) (w, tr) zipArg outputArg =
           Some (Usage_exit,
                 (os_error os w (''[zip:extract] input is not a .zip file: '' @ zipPath),
                  tr @ [Err (''[zip:extract] input is not a .zip file: '' @ zipPath)]))
         \<and> exit_code Usage_exit = 1"
proof -
  from resolve_not_zip_unchanged [OF assms] have "w1 = (w, tr)" .
  with assms show ?thesis by (simp add: main_def traced_def)
qed

theorem C8_non_zip_argument_witness:
  "resolveZipFromArgs (traced (fixed_os upload_sc)) ((), []) (Some ''notes.txt'')
     = Some (Inr ''/home/u/upload/notes.txt'', ((), []))
   \<and> toLowerCase (path_extname ''/home/u/upload/notes.txt'') \<noteq> ''.zip''
   \<and> main (traced (fixed_os upload_sc)) ((), []) (Some ''notes.txt'') None =
       Some (Usage_exit, ((), [Err ''[zip:extract] input is not a .zip file: /home/u/upload/notes.txt'']))
   \<and> exit_code Usage_exit = 1"
proof -
  have r: "resolveZipFromArgs (traced (fixed_os upload_sc)) ((), []) (Some ''notes.txt'')
             = Some (Inr ''/home/u/upload/notes.txt'', ((), []))"
    by code_simp
  have e: "toLowerCase (path_extname ''/home/u/upload/notes.txt'') \<noteq> ''.zip''"
    by code_simp
  from C8_non_zip_argument [OF r e, of None] r e show ?thesis by simp
qed



lemma dedupe_props: "distinct (dedupe seen xs) \<and> set (dedupe seen xs) = set xs - set seen"
  by (induction xs arbitrary: seen) auto

lemma available_props:
  "length (take 12 (dedupe [] xs)) \<le> 12 \<and> distinct (take 12 (dedupe [] xs))
   \<and> set (take 12 (dedupe [] xs)) \<subseteq> set xs"
proof -
  have "set (take 12 (dedupe [] xs)) \<subseteq> set (dedupe [] xs)" by (rule set_take_subset)
  with dedupe_props [of "[]" xs] show ?thesis by auto
qed

text \<open>
  C6 (as amended). When the trimmed argument names no file, neither directly nor in
  the upload folder, the real zips of the upload folder are matched by lower-cased
  base name against the lower-cased argument and against the argument with
  \<^verbatim>\<open>.zip\<close> appended, the suffix being appended only when the lower-cased argument
  does not end with it already. One match is the result. For several matches the
  result is a match whose modification time none of the others exceeds, and the
  choice is logged; if the modification time of a match cannot be read, that error is
  thrown. Without a match the resolution throws an error that lists at most twelve
  different base names of the real zips.
\<close>

theorem C6_basename_match:
  assumes "trim zipArg = a" "a \<noteq> []"
    and "\<not> stat_isFile os w (path_resolve (os_cwd os) [a])"
    and "\<not> stat_isFile os w (path_resolve (os_cwd os) [UPLOAD_DIR os, a])"
    and "listFilesRecursive os w (UPLOAD_DIR os) = Some listed"
    and "zips = filter isRealZipPath (case listed of Inl e \<Rightarrow> [] | Inr files \<Rightarrow> files)"
    and "wanted = (if endsWith (toLowerCase a) ''.zip'' then toLowerCase a
                   else toLowerCase a @ ''.zip'')"
    and "ms = filter (\<lambda>file. toLowerCase (path_basename file) = toLowerCase a
                            \<or> toLowerCase (path_basename file) = wanted) zips"
  shows "(ms = [m] \<longrightarrow> resolveZipFromArgs os w (Some zipArg) = Some (Inr m, w))
       \<and> (1 < length ms \<and> withMtime os w ms = Inr found \<longrightarrow>
            (\<exists>p t. resolveZipFromArgs os w (Some zipArg)
                      = Some (Inr p, os_log os w (''[zip:extract] multiple matches for ''
                                @ [CHR 0x22] @ a @ [CHR 0x22] @ '', using newest: '' @ p))
                    \<and> p \<in> set ms \<and> (p, t) \<in> set found \<and> (\<forall>x\<in>set found. snd x \<le> t)))
       \<and> (1 < length ms \<and> withMtime os w ms = Inl e \<longrightarrow>
            resolveZipFromArgs os w (Some zipArg) = Some (Inl e, w))
       \<and> (ms = [] \<longrightarrow>
            (\<exists>available.
               resolveZipFromArgs os w (Some zipArg)
                 = Some (Inl (Error (''zip file not found: '' @ a
                            @ ''. Available zip files in upload: ''
                            @ (if join_comma available = [] then ''(none)''
                               else join_comma available))), w)
               \<and> length available \<le> 12 \<and> distinct available
               \<and> set available \<subseteq> path_basename ` set zips))"
proof -
  have ms: "basename_matches a zips = ms"
    using assms(7,8) by (simp add: basename_matches_def Let_def)
  have r: "resolveZipFromArgs os w (Some zipArg) = Some (choose_match os w a zips ms)"
    using assms(1-6) ms by (simp add: resolveZipFromArgs_def resolveZip_given_def Let_def)
  have one: "resolveZipFromArgs os w (Some zipArg) = Some (Inr m, w)" if "ms = [m]"
    using that r by (simp add: choose_match_def)
  have many: "\<exists>p t. resolveZipFromArgs os w (Some zipArg)
                      = Some (Inr p, os_log os w (''[zip:extract] multiple matches for ''
                                @ [CHR 0x22] @ a @ [CHR 0x22] @ '', using newest: '' @ p))
                    \<and> p \<in> set ms \<and> (p, t) \<in> set found \<and> (\<forall>x\<in>set found. snd x \<le> t)"
    if "1 < length ms \<and> withMtime os w ms = Inr found"
  proof -
    from that have l: "1 < length ms" and f: "withMtime os w ms = Inr found" by simp_all
    from l have ne: "ms \<noteq> []" by auto
    let ?h = "hd (sort_newest_first found)"
    from newest_of [OF f ne] have "fst ?h \<in> set ms" "(fst ?h, snd ?h) \<in> set found"
      "\<forall>x\<in>set found. snd x \<le> snd ?h" by simp_all
    moreover from r l f have "resolveZipFromArgs os w (Some zipArg)
                      = Some (Inr (fst ?h), os_log os w (''[zip:extract] multiple matches for ''
                                @ [CHR 0x22] @ a @ [CHR 0x22] @ '', using newest: '' @ fst ?h))"
      by (simp add: choose_match_def Let_def)
    ultimately show ?thesis by blast
  qed
  have err: "resolveZipFromArgs os w (Some zipArg) = Some (Inl e, w)"
    if "1 < length ms \<and> withMtime os w ms = Inl e"
    using that r by (simp add: choose_match_def)
  have none: "\<exists>available.
               resolveZipFromArgs os w (Some zipArg)
                 = Some (Inl (Error (''zip file not found: '' @ a
                            @ ''. Available zip files in upload: ''
                            @ (if join_comma available = [] then ''(none)''
                               else join_comma available))), w)
               \<and> length available \<le> 12 \<and> distinct available
               \<and> set available \<subseteq> path_basename ` set zips"
    if "ms = []"
  proof -
    let ?av = "take 12 (dedupe [] (map path_basename zips))"
    from that r have "resolveZipFromArgs os w (Some zipArg)
                 = Some (Inl (Error (''zip file not found: '' @ a
                            @ ''. Available zip files in upload: ''
                            @ (if join_comma ?av = [] then ''(none)'' else join_comma ?av))), w)"
      by (simp add: choose_match_def Let_def)
    moreover from available_props [of "map path_basename zips"]
    have "length ?av \<le> 12 \<and> distinct ?av \<and> set ?av \<subseteq> path_basename ` set zips" by simp
    ultimately show ?thesis by blast
  qed
  from one many err none show ?thesis by blast
qed

theorem C6_basename_match_witness:
  "trim '' a '' = ''a''
   \<and> \<not> stat_isFile (traced (fixed_os twins_sc)) ((), []) ''/home/u/a''
   \<and> \<not> stat_isFile (traced (fixed_os twins_sc)) ((), []) ''/home/u/upload/a''
   \<and> listFilesRecursive (traced (fixed_os twins_sc)) ((), []) ''/home/u/upload''
       = Some (Inr [''/home/u/upload/a.zip'', ''/home/u/upload/sub/A.ZIP''])
   \<and> withMtime (traced (fixed_os twins_sc)) ((), [])
        [''/home/u/upload/a.zip'', ''/home/u/upload/sub/A.ZIP'']
       = Inr [(''/home/u/upload/a.zip'', 3), (''/home/u/upload/sub/A.ZIP'', 8)]
   \<and> resolveZipFromArgs (traced (fixed_os twins_sc)) ((), []) (Some '' a '')
       = Some (Inr ''/home/u/upload/sub/A.ZIP'',
               ((), [Log (''[zip:extract] multiple matches for '' @ [CHR 0x22] @ ''a'' @ [CHR 0x22]
                          @ '', using newest: /home/u/upload/sub/A.ZIP'')]))"
proof -
  let ?os = "traced (fixed_os twins_sc)"
  let ?ms = "[''/home/u/upload/a.zip'', ''/home/u/upload/sub/A.ZIP'']"
  let ?found = "[(''/home/u/upload/a.zip'', 3), (''/home/u/upload/sub/A.ZIP'', 8 :: int)]"
  have h1: "trim '' a '' = ''a''" by code_simp
  have h2: "''a'' \<noteq> []" by simp
  have h3: "\<not> stat_isFile ?os ((), []) (path_resolve (os_cwd ?os) [''a''])" by code_simp
  have h4: "\<not> stat_isFile ?os ((), []) (path_resolve (os_cwd ?os) [UPLOAD_DIR ?os, ''a''])"
    by code_simp
  have h5: "listFilesRecursive ?os ((), []) (UPLOAD_DIR ?os) = Some (Inr ?ms)" by code_simp
  have d: "\<not> stat_isFile ?os ((), []) ''/home/u/a''" by code_simp
  have d': "\<not> stat_isFile ?os ((), []) ''/home/u/upload/a''" by code_simp
  have l: "listFilesRecursive ?os ((), []) ''/home/u/upload'' = Some (Inr ?ms)" by code_simp
  have z: "?ms = filter isRealZipPath (case Inr ?ms of Inl e \<Rightarrow> [] | Inr files \<Rightarrow> files)"
    by code_simp
  have wn: "''a.zip'' = (if endsWith (toLowerCase ''a'') ''.zip'' then toLowerCase ''a''
                         else toLowerCase ''a'' @ ''.zip'')"
    by code_simp
  have m: "?ms = filter (\<lambda>file. toLowerCase (path_basename file) = toLowerCase ''a''
                            \<or> toLowerCase (path_basename file) = ''a.zip'') ?ms"
    by code_simp
  have f: "withMtime ?os ((), []) ?ms = Inr ?found" by code_simp
  note t = C6_basename_match [OF h1 h2 h3 h4 h5 z wn m, where found = ?found]
  from t [THEN conjunct2, THEN conjunct1] f
  obtain p t where r: "resolveZipFromArgs ?os ((), []) (Some '' a '')
                      = Some (Inr p, os_log ?os ((), []) (''[zip:extract] multiple matches for ''
                                @ [CHR 0x22] @ ''a'' @ [CHR 0x22] @ '', using newest: '' @ p))"
    and i: "(p, t) \<in> set ?found" and x: "\<forall>x\<in>set ?found. snd x \<le> t"
    by auto
  from i x have "p = ''/home/u/upload/sub/A.ZIP''" by auto
  with r have "resolveZipFromArgs ?os ((), []) (Some '' a '')
       = Some (Inr ''/home/u/upload/sub/A.ZIP'',
               ((), [Log (''[zip:extract] multiple matches for '' @ [CHR 0x22] @ ''a'' @ [CHR 0x22]
                          @ '', using newest: /home/u/upload/sub/A.ZIP'')]))"
    by (simp add: traced_def)
  with h1 d d' l f show ?thesis by blast
qed

theorem C6_suffix_counterexample:
  "\<not> stat_isFile (fixed_os suffix_sc) () (path_resolve ''/home/u'' [''x.zip''])
   \<and> \<not> stat_isFile (fixed_os suffix_sc) () (path_resolve ''/home/u'' [''/home/u/upload'', ''x.zip''])
   \<and> listFilesRecursive (fixed_os suffix_sc) () ''/home/u/upload''
       = Some (Inr [''/home/u/upload/x.zip.zip''])
   \<and> isRealZipPath ''/home/u/upload/x.zip.zip''
   \<and> toLowerCase (path_basename ''/home/u/upload/x.zip.zip'') = toLowerCase ''x.zip'' @ ''.zip''
   \<and> resolveZipFromArgs (fixed_os suffix_sc) () (Some ''x.zip'')
       = Some (Inl (Error ''zip file not found: x.zip. Available zip files in upload: x.zip.zip''), ())"
  by code_simp

section \<open>Preparing the output directory\<close>

text \<open>
  C3 (as amended). When clearing and recreating the preferred output directory fails,
  \<^verbatim>\<open>prepareEmptyDir\<close> turns to the sibling \<^verbatim>\<open><preferredBase>_<timestamp>\<close>. If that
  directory can be created, the two lines (the fallback path, the reason) are logged,
  the tools are run on the fallback directory, the call returns it when \<^verbatim>\<open>unzip\<close>
  succeeds, and the only error the call can still throw is that of both tools failing.
  If creating the fallback directory fails as well, that error is thrown by
  \<^verbatim>\<open>prepareEmptyDir\<close> and by the extraction call.
\<close>

theorem C3_fallback_directory:
  assumes prep: "os_rm os w preferredDir True = (Some err, w1)
                 \<or> (\<exists>w0. os_rm os w preferredDir True = (None, w0)
                          \<and> os_mkdir os w0 preferredDir = (Some err, w1))"
    and fb: "fallbackDir = path_join [path_dirname preferredDir,
                              path_basename preferredDir @ ''_'' @ show_nat (os_now os w1)]"
  shows "(\<forall>w2. os_mkdir os w1 fallbackDir = (None, w2) \<longrightarrow>
            (let w3 = os_log os
                        (os_log os w2 (''[zip:extract] cannot reuse output dir ('' @ preferredDir
                                        @ ''); using fallback: '' @ fallbackDir))
                        (''[zip:extract] reason: '' @ errorText err)
             in prepareEmptyDir os w preferredDir = (Inr fallbackDir, w3)
                \<and> (\<forall>w4. os_execFile os w3 ''unzip'' [''-o'', zipPath, ''-d'', fallbackDir]
                            [(''LANG'', ''C''), (''LC_ALL'', ''C''), (''LC_CTYPE'', ''C'')] = (None, w4)
                          \<longrightarrow> unzipToDir os w zipPath preferredDir = (Inr fallbackDir, w4))
                \<and> (\<forall>e w5. unzipToDir os w zipPath preferredDir = (Inl e, w5) \<longrightarrow>
                      (\<exists>unzipMsg dittoMsg.
                         e = Error (''Both unzip and ditto failed.'' @ [CHR 0x0A] @ ''- unzip: ''
                               @ unzipMsg @ [CHR 0x0A] @ ''- ditto: '' @ dittoMsg)))))
         \<and> (\<forall>e2 w2. os_mkdir os w1 fallbackDir = (Some e2, w2) \<longrightarrow>
               prepareEmptyDir os w preferredDir = (Inl e2, w2)
               \<and> unzipToDir os w zipPath preferredDir = (Inl e2, w2))"
proof -
  have c: "prepareEmptyDir os w preferredDir = prepareEmptyDir_catch os w1 preferredDir err"
    using prep by (auto simp: prepareEmptyDir_def)
  have f: "buildFallbackDirPath (os_now os w1) preferredDir = fallbackDir"
    by (simp add: buildFallbackDirPath_def fb)
  have ok: "prepareEmptyDir os w preferredDir =
              (Inr fallbackDir,
               os_log os (os_log os w2 (''[zip:extract] cannot reuse output dir ('' @ preferredDir
                                        @ ''); using fallback: '' @ fallbackDir))
                        (''[zip:extract] reason: '' @ errorText err))"
    if "os_mkdir os w1 fallbackDir = (None, w2)" for w2
    using that c f by (simp add: prepareEmptyDir_catch_def Let_def)
  have bad: "prepareEmptyDir os w preferredDir = (Inl e2, w2)"
    if "os_mkdir os w1 fallbackDir = (Some e2, w2)" for e2 w2
    using that c f by (simp add: prepareEmptyDir_catch_def Let_def)
  show ?thesis
  proof (intro conjI allI impI)
    fix w2 assume m: "os_mkdir os w1 fallbackDir = (None, w2)"
    show "let w3 = os_log os
                        (os_log os w2 (''[zip:extract] cannot reuse output dir ('' @ preferredDir
                                        @ ''); using fallback: '' @ fallbackDir))
                        (''[zip:extract] reason: '' @ errorText err)
             in prepareEmptyDir os w preferredDir = (Inr fallbackDir, w3)
                \<and> (\<forall>w4. os_execFile os w3 ''unzip'' [''-o'', zipPath, ''-d'', fallbackDir]
                            [(''LANG'', ''C''), (''LC_ALL'', ''C''), (''LC_CTYPE'', ''C'')] = (None, w4)
                          \<longrightarrow> unzipToDir os w zipPath preferredDir = (Inr fallbackDir, w4))
                \<and> (\<forall>e w5. unzipToDir os w zipPath preferredDir = (Inl e, w5) \<longrightarrow>
                      (\<exists>unzipMsg dittoMsg.
                         e = Error (''Both unzip and ditto failed.'' @ [CHR 0x0A] @ ''- unzip: ''
                               @ unzipMsg @ [CHR 0x0A] @ ''- ditto: '' @ dittoMsg)))"
      unfolding Let_def
    proof (intro conjI allI impI)
      show "prepareEmptyDir os w preferredDir =
              (Inr fallbackDir,
               os_log os (os_log os w2 (''[zip:extract] cannot reuse output dir ('' @ preferredDir
                                        @ ''); using fallback: '' @ fallbackDir))
                        (''[zip:extract] reason: '' @ errorText err))"
        using ok [OF m] .
    next
      fix w4
      assume "os_execFile os
              (os_log os (os_log os w2 (''[zip:extract] cannot reuse output dir ('' @ preferredDir
                                        @ ''); using fallback: '' @ fallbackDir))
                        (''[zip:extract] reason: '' @ errorText err))
              ''unzip'' [''-o'', zipPath, ''-d'', fallbackDir]
              [(''LANG'', ''C''), (''LC_ALL'', ''C''), (''LC_CTYPE'', ''C'')] = (None, w4)"
      then show "unzipToDir os w zipPath preferredDir = (Inr fallbackDir, w4)"
        by (simp add: unzipToDir_def ok [OF m])
    next
      fix e w5
      assume "unzipToDir os w zipPath preferredDir = (Inl e, w5)"
      then show "\<exists>unzipMsg dittoMsg.
                         e = Error (''Both unzip and ditto failed.'' @ [CHR 0x0A] @ ''- unzip: ''
                               @ unzipMsg @ [CHR 0x0A] @ ''- ditto: '' @ dittoMsg)"
        by (auto simp: unzipToDir_def ok [OF m] Let_def split: prod.splits option.splits)
    qed
  next
    fix e2 w2 assume m: "os_mkdir os w1 fallbackDir = (Some e2, w2)"
    show "prepareEmptyDir os w preferredDir = (Inl e2, w2)" using bad [OF m] .
    show "unzipToDir os w zipPath preferredDir = (Inl e2, w2)"
      by (simp add: unzipToDir_def bad [OF m])
  qed
qed

theorem C3_fallback_directory_witness:
  "os_rm (traced (fixed_os (refusing [''/home/u/upload/pack_extracted''] []))) ((), [])
       ''/home/u/upload/pack_extracted'' True
     = (Some (Error ''EACCES: /home/u/upload/pack_extracted''),
        ((), [Rm ''/home/u/upload/pack_extracted'' True]))
   \<and> ''/home/u/upload/pack_extracted_7''
       = path_join [path_dirname ''/home/u/upload/pack_extracted'',
                    path_basename ''/home/u/upload/pack_extracted'' @ ''_'' @ show_nat 7]
   \<and> unzipToDir (traced (fixed_os (refusing [''/home/u/upload/pack_extracted''] []))) ((), [])
        ''/home/u/upload/pack.zip'' ''/home/u/upload/pack_extracted''
     = (Inr ''/home/u/upload/pack_extracted_7'',
        ((), [Rm ''/home/u/upload/pack_extracted'' True,
              Mkdir ''/home/u/upload/pack_extracted_7'',
              Log ''[zip:extract] cannot reuse output dir (/home/u/upload/pack_extracted); using fallback: /home/u/upload/pack_extracted_7'',
              Log ''[zip:extract] reason: EACCES: /home/u/upload/pack_extracted'',
              Exec ''unzip'' [''-o'', ''/home/u/upload/pack.zip'', ''-d'',
                              ''/home/u/upload/pack_extracted_7'']]))"
proof -
  let ?os = "traced (fixed_os (refusing [''/home/u/upload/pack_extracted''] []))"
  let ?pref = "''/home/u/upload/pack_extracted''"
  let ?fb = "''/home/u/upload/pack_extracted_7''"
  let ?w1 = "((), [Rm ?pref True])"
  let ?w2 = "((), [Rm ?pref True, Mkdir ?fb])"
  let ?w3 = "os_log ?os (os_log ?os ?w2 (''[zip:extract] cannot reuse output dir ('' @ ?pref
                                        @ ''); using fallback: '' @ ?fb))
                        (''[zip:extract] reason: '' @ errorText (Error ''EACCES: /home/u/upload/pack_extracted''))"
  let ?w4 = "((), [Rm ?pref True, Mkdir ?fb,
              Log ''[zip:extract] cannot reuse output dir (/home/u/upload/pack_extracted); using fallback: /home/u/upload/pack_extracted_7'',
              Log ''[zip:extract] reason: EACCES: /home/u/upload/pack_extracted'',
              Exec ''unzip'' [''-o'', ''/home/u/upload/pack.zip'', ''-d'', ?fb]])"
  have h1: "os_rm ?os ((), []) ?pref True
              = (Some (Error ''EACCES: /home/u/upload/pack_extracted''), ?w1)
            \<or> (\<exists>w0. os_rm ?os ((), []) ?pref True = (None, w0)
                  \<and> os_mkdir ?os w0 ?pref = (Some (Error ''EACCES: /home/u/upload/pack_extracted''), ?w1))"
    by (rule disjI1) code_simp
  have h1': "os_rm ?os ((), []) ?pref True
              = (Some (Error ''EACCES: /home/u/upload/pack_extracted''), ?w1)"
    by code_simp
  have n: "os_now ?os ?w1 = 7" by code_simp
  have h2: "?fb = path_join [path_dirname ?pref, path_basename ?pref @ ''_'' @ show_nat (os_now ?os ?w1)]"
    by code_simp
  have h2': "?fb = path_join [path_dirname ?pref, path_basename ?pref @ ''_'' @ show_nat 7]"
    by code_simp
  have m: "os_mkdir ?os ?w1 ?fb = (None, ?w2)" by code_simp
  have x: "os_execFile ?os ?w3 ''unzip'' [''-o'', ''/home/u/upload/pack.zip'', ''-d'', ?fb]
             [(''LANG'', ''C''), (''LC_ALL'', ''C''), (''LC_CTYPE'', ''C'')] = (None, ?w4)"
    by code_simp
  from C3_fallback_directory [OF h1 h2, of "''/home/u/upload/pack.zip''"] m x
  have "unzipToDir ?os ((), []) ''/home/u/upload/pack.zip'' ?pref = (Inr ?fb, ?w4)"
    unfolding Let_def by blast
  with h1' h2' show ?thesis by blast
qed

theorem C3_fallback_refused_counterexample:
  "os_rm (fixed_os (refusing [''/home/u/upload/pack_extracted''] [''/home/u/upload/pack_extracted_7''])) ()
       ''/home/u/upload/pack_extracted'' True
     = (Some (Error ''EACCES: /home/u/upload/pack_extracted''), ())
   \<and> unzipToDir (traced (fixed_os (refusing [''/home/u/upload/pack_extracted'']
                                             [''/home/u/upload/pack_extracted_7''])))
        ((), []) ''/home/u/upload/pack.zip'' ''/home/u/upload/pack_extracted''
     = (Inl (Error ''EACCES: /home/u/upload/pack_extracted_7''),
        ((), [Rm ''/home/u/upload/pack_extracted'' True,
              Mkdir ''/home/u/upload/pack_extracted_7'']))"
  by code_simp

section \<open>Removing the metadata of a Mac\<close>

lemma rm_calls_append: "rm_calls (a @ b) = rm_calls a @ rm_calls b"
  by (induction a rule: rm_calls.induct) auto

lemma traced_rm:
  "os_rm (traced os) (w, tr) p r = (fst (os_rm os w p r), (snd (os_rm os w p r), tr @ [Rm p r]))"
  by (simp add: traced_def split: prod.splits)

lemma cleanup_files_journal:
  "cleanup_files (traced os) (w, tr) files n = (r, (w1, tr1)) \<Longrightarrow>
     (\<forall>m. r = Inr m \<longrightarrow>
        m = n + length (filter isMacMetadataFile files) \<and>
        rm_calls tr1 = rm_calls tr @ filter isMacMetadataFile files)
     \<and> (\<forall>e. r = Inl e \<longrightarrow>
        (\<exists>k < length (filter isMacMetadataFile files).
           rm_calls tr1 = rm_calls tr @ take (Suc k) (filter isMacMetadataFile files)))"
proof (induction files arbitrary: w tr n)
  case Nil
  then show ?case by auto
next
  case (Cons f files)
  show ?case
  proof (cases "isMacMetadataFile f")
    case False
    with Cons.prems have "cleanup_files (traced os) (w, tr) files n = (r, (w1, tr1))" by simp
    from Cons.IH [OF this] False show ?thesis by simp
  next
    case True
    show ?thesis
    proof (cases "fst (os_rm os w f False)")
      case (Some e)
      with Cons.prems True have "r = Inl e" "tr1 = tr @ [Rm f False]"
        by (auto simp: traced_rm)
      with True Some show ?thesis
        by (auto simp: rm_calls_append intro!: exI [where x = 0])
    next
      case None
      with Cons.prems True
      have "cleanup_files (traced os) (snd (os_rm os w f False), tr @ [Rm f False]) files (n + 1)
              = (r, (w1, tr1))"
        by (auto simp: traced_rm)
      from Cons.IH [OF this] have
        a: "\<forall>m. r = Inr m \<longrightarrow>
              m = n + 1 + length (filter isMacMetadataFile files) \<and>
              rm_calls tr1 = rm_calls (tr @ [Rm f False]) @ filter isMacMetadataFile files"
        and b: "\<forall>e. r = Inl e \<longrightarrow>
          (\<exists>k < length (filter isMacMetadataFile files).
           rm_calls tr1 = rm_calls (tr @ [Rm f False]) @ take (Suc k) (filter isMacMetadataFile files))"
        by blast+
      from a True have a': "\<forall>m. r = Inr m \<longrightarrow>
        m = n + length (filter isMacMetadataFile (f # files)) \<and>
        rm_calls tr1 = rm_calls tr @ filter isMacMetadataFile (f # files)"
        by (simp add: rm_calls_append)
      have b': "\<exists>k < length (filter isMacMetadataFile (f # files)).
           rm_calls tr1 = rm_calls tr @ take (Suc k) (filter isMacMetadataFile (f # files))"
        if "r = Inl e" for e
      proof -
        from b that obtain k where k: "k < length (filter isMacMetadataFile files)"
          and t: "rm_calls tr1 = rm_calls (tr @ [Rm f False]) @ take (Suc k) (filter isMacMetadataFile files)"
          by blast
        show ?thesis
          using k t True
          by (intro exI [where x = "Suc k"]) (auto simp: rm_calls_append)
      qed
      from a' b' show ?thesis by blast
    qed
  qed
qed

lemma cleanup_dirs_stops:
  "cleanup_dirs (traced os) (w, tr) dirs n = (r, (w1, tr1)) \<Longrightarrow>
     (\<forall>m. r = Inr m \<longrightarrow>
        m = n + length (filter (\<lambda>d. path_basename d = ''__MACOSX'') dirs) \<and>
        rm_calls tr1 = rm_calls tr @ filter (\<lambda>d. path_basename d = ''__MACOSX'') dirs)
     \<and> (\<forall>e. r = Inl e \<longrightarrow>
        (\<exists>k < length (filter (\<lambda>d. path_basename d = ''__MACOSX'') dirs).
           rm_calls tr1
             = rm_calls tr @ take (Suc k) (filter (\<lambda>d. path_basename d = ''__MACOSX'') dirs)))"
proof (induction dirs arbitrary: w tr n)
  case Nil
  then show ?case by auto
next
  case (Cons d dirs)
  let ?P = "\<lambda>d. path_basename d = ''__MACOSX''"
  show ?case
  proof (cases "?P d")
    case False
    with Cons.prems have "cleanup_dirs (traced os) (w, tr) dirs n = (r, (w1, tr1))" by simp
    from Cons.IH [OF this] False show ?thesis by simp
  next
    case True
    show ?thesis
    proof (cases "fst (os_rm os w d True)")
      case (Some e)
      with Cons.prems True have "r = Inl e" "tr1 = tr @ [Rm d True]"
        by (auto simp: traced_rm)
      with True Some show ?thesis
        by (auto simp: rm_calls_append intro!: exI [where x = 0])
    next
      case None
      with Cons.prems True
      have "cleanup_dirs (traced os) (snd (os_rm os w d True), tr @ [Rm d True]) dirs (n + 1)
              = (r, (w1, tr1))"
        by (auto simp: traced_rm)
      from Cons.IH [OF this] have
        a: "\<forall>m. r = Inr m \<longrightarrow>
              m = n + 1 + length (filter ?P dirs) \<and>
              rm_calls tr1 = rm_calls (tr @ [Rm d True]) @ filter ?P dirs"
        and b: "\<forall>e. r = Inl e \<longrightarrow>
          (\<exists>k < length (filter ?P dirs).
           rm_calls tr1 = rm_calls (tr @ [Rm d True]) @ take (Suc k) (filter ?P dirs))"
        by blast+
      from a True have a': "\<forall>m. r = Inr m \<longrightarrow>
        m = n + length (filter ?P (d # dirs)) \<and>
        rm_calls tr1 = rm_calls tr @ filter ?P (d # dirs)"
        by (simp add: rm_calls_append)
      have b': "\<exists>k < length (filter ?P (d # dirs)).
           rm_calls tr1 = rm_calls tr @ take (Suc k) (filter ?P (d # dirs))"
        if "r = Inl e" for e
      proof -
        from b that obtain k where k: "k < length (filter ?P dirs)"
          and t: "rm_calls tr1 = rm_calls (tr @ [Rm d True]) @ take (Suc k) (filter ?P dirs)"
          by blast
        show ?thesis
          using k t True
          by (intro exI [where x = "Suc k"]) (auto simp: rm_calls_append)
      qed
      from a' b' show ?thesis by blast
    qed
  qed
qed

lemma main_root_extracted:
  assumes "resolveZipFromArgs os u zipArg = Some (Inr zipPath, u1)"
    and "toLowerCase (path_extname zipPath) = ''.zip''"
    and "unzipToDir os
           (os_logs os u1
              [''[zip:extract] source zip: '' @ zipPath,
               ''[zip:extract] requested output dir: ''
                 @ path_resolve (os_cwd os)
                     [case outputArg of
                        None \<Rightarrow> path_join [path_dirname zipPath,
                                           path_basename_suffix zipPath ''.zip'' @ ''_extracted'']
                      | Some given \<Rightarrow> given]])
           zipPath
           (path_resolve (os_cwd os)
              [case outputArg of
                 None \<Rightarrow> path_join [path_dirname zipPath,
                                    path_basename_suffix zipPath ''.zip'' @ ''_extracted'']
               | Some given \<Rightarrow> given])
         = (Inr rootDir, v0)"
  shows "main os u zipArg outputArg = main_extracted os v0 rootDir"
  using assms by (simp add: main_def Let_def)

text \<open>
  C4 (as amended). The clean-up is not best effort. Each of its two loops stops at the
  first removal that fails: the metadata files, or the \<^verbatim>\<open>__MACOSX\<close> directories,
  before it have been removed, the ones after it are not attempted, and the error
  leaves \<^verbatim>\<open>cleanupMacArtifacts\<close>, whether it comes from the loop over the files or
  from the loop over the directories. \<^verbatim>\<open>main\<close>, once it has extracted the root
  archive and run the nested loop, then ends in its handler with exit code 1 and
  prints no summary. When no removal fails, every metadata file and every
  \<^verbatim>\<open>__MACOSX\<close> directory listed is removed and counted, and once the clean-up and
  the two final listings have returned, \<^verbatim>\<open>main\<close> prints the summary and ends with
  exit code 0.
\<close>

theorem C4_cleanup_stops_at_failure:
  assumes "mf = filter isMacMetadataFile files"
    and "md = filter (\<lambda>d. path_basename d = ''__MACOSX'') (sort_deepest_first dirs)"
  shows "(cleanup_files (traced os) (w, tr) files n = (Inl e, (w1, tr1)) \<longrightarrow>
            (\<exists>k < length mf. rm_calls tr1 = rm_calls tr @ take (Suc k) mf))
       \<and> (cleanup_files (traced os) (w, tr) files n = (Inr m, (w1, tr1)) \<longrightarrow>
            m = n + length mf \<and> rm_calls tr1 = rm_calls tr @ mf)
       \<and> (cleanup_dirs (traced os) (w, tr) (sort_deepest_first dirs) n = (Inl e, (w1, tr1)) \<longrightarrow>
            (\<exists>k < length md. rm_calls tr1 = rm_calls tr @ take (Suc k) md))
       \<and> (cleanup_dirs (traced os) (w, tr) (sort_deepest_first dirs) n = (Inr m, (w1, tr1)) \<longrightarrow>
            m = n + length md \<and> rm_calls tr1 = rm_calls tr @ md)
       \<and> (listFilesRecursive env v rootDir = Some (Inr files) \<longrightarrow>
            (cleanup_files env v files 0 = (Inl e, v1) \<longrightarrow>
               cleanupMacArtifacts env v rootDir = Some (Inl e, v1))
            \<and> (cleanup_files env v files 0 = (Inr removedFiles, v1)
                \<and> listDirsRecursive env v1 rootDir = Some (Inr dirs) \<longrightarrow>
                 (cleanup_dirs env v1 (sort_deepest_first dirs) 0 = (Inl e, v2) \<longrightarrow>
                    cleanupMacArtifacts env v rootDir = Some (Inl e, v2))
                 \<and> (cleanup_dirs env v1 (sort_deepest_first dirs) 0 = (Inr removedDirs, v2) \<longrightarrow>
                    cleanupMacArtifacts env v rootDir
                      = Some (Inr (removedFiles, removedDirs), v2))))
       \<and> (resolveZipFromArgs env u zipArg = Some (Inr zipPath, u1)
            \<and> toLowerCase (path_extname zipPath) = ''.zip''
            \<and> unzipToDir env
                 (os_logs env u1
                    [''[zip:extract] source zip: '' @ zipPath,
                     ''[zip:extract] requested output dir: ''
                       @ path_resolve (os_cwd env)
                           [case outputArg of
                              None \<Rightarrow> path_join [path_dirname zipPath,
                                        path_basename_suffix zipPath ''.zip'' @ ''_extracted'']
                            | Some given \<Rightarrow> given]])
                 zipPath
                 (path_resolve (os_cwd env)
                    [case outputArg of
                       None \<Rightarrow> path_join [path_dirname zipPath,
                                 path_basename_suffix zipPath ''.zip'' @ ''_extracted'']
                     | Some given \<Rightarrow> given])
               = (Inr rootDir, v0)
            \<and> makeDirectoriesWritable env
                 (os_logs env v0 [''[zip:extract] output dir: '' @ rootDir,
                                  ''[zip:extract] root zip extracted.'']) rootDir
               = Some (Inr updated, v3)
            \<and> extractNestedZips env
                 (os_log env v3 (''[zip:extract] writable directory normalization: ''
                      @ show_nat updated @ '' dirs updated'')) rootDir
               = Some (Inr (nestedCount, nestedFailures), v)
            \<longrightarrow>
            (cleanupMacArtifacts env v rootDir = Some (Inl e, v1) \<longrightarrow>
               main env u zipArg outputArg
                 = Some (Failed e, os_error env v1 (''[zip:extract] failed: '' @ os_inspect env e))
               \<and> exit_code (Failed e) = 1)
            \<and> (cleanupMacArtifacts env v rootDir = Some (Inr (removedFiles, removedDirs), v1)
                \<and> listFilesRecursive env v1 rootDir = Some (Inr allFiles)
                \<and> listDirsRecursive env v1 rootDir = Some (Inr allDirs) \<longrightarrow>
               main env u zipArg outputArg
                 = Some (Completed,
                         os_logs env v1 (summary nestedCount nestedFailures removedFiles
                                           removedDirs allFiles allDirs))
               \<and> exit_code Completed = 0))"
proof -
  have 1: "cleanup_files (traced os) (w, tr) files n = (Inl e, (w1, tr1)) \<longrightarrow>
            (\<exists>k < length mf. rm_calls tr1 = rm_calls tr @ take (Suc k) mf)"
    using cleanup_files_journal [of os w tr files n "Inl e" w1 tr1] assms(1) by blast
  have 2: "cleanup_files (traced os) (w, tr) files n = (Inr m, (w1, tr1)) \<longrightarrow>
            m = n + length mf \<and> rm_calls tr1 = rm_calls tr @ mf"
    using cleanup_files_journal [of os w tr files n "Inr m" w1 tr1] assms(1) by blast
  have 3: "cleanup_dirs (traced os) (w, tr) (sort_deepest_first dirs) n = (Inl e, (w1, tr1)) \<longrightarrow>
            (\<exists>k < length md. rm_calls tr1 = rm_calls tr @ take (Suc k) md)"
    using cleanup_dirs_stops [of os w tr "sort_deepest_first dirs" n "Inl e" w1 tr1] assms(2)
    by blast
  have 4: "cleanup_dirs (traced os) (w, tr) (sort_deepest_first dirs) n = (Inr m, (w1, tr1)) \<longrightarrow>
            m = n + length md \<and> rm_calls tr1 = rm_calls tr @ md"
    using cleanup_dirs_stops [of os w tr "sort_deepest_first dirs" n "Inr m" w1 tr1] assms(2)
    by blast
  have 5: "listFilesRecursive env v rootDir = Some (Inr files) \<longrightarrow>
            (cleanup_files env v files 0 = (Inl e, v1) \<longrightarrow>
               cleanupMacArtifacts env v rootDir = Some (Inl e, v1))
            \<and> (cleanup_files env v files 0 = (Inr removedFiles, v1)
                \<and> listDirsRecursive env v1 rootDir = Some (Inr dirs) \<longrightarrow>
                 (cleanup_dirs env v1 (sort_deepest_first dirs) 0 = (Inl e, v2) \<longrightarrow>
                    cleanupMacArtifacts env v rootDir = Some (Inl e, v2))
                 \<and> (cleanup_dirs env v1 (sort_deepest_first dirs) 0 = (Inr removedDirs, v2) \<longrightarrow>
                    cleanupMacArtifacts env v rootDir
                      = Some (Inr (removedFiles, removedDirs), v2)))"
    by (simp add: cleanupMacArtifacts_def)
  have 6: "(cleanupMacArtifacts env v rootDir = Some (Inl e, v1) \<longrightarrow>
               main env u zipArg outputArg
                 = Some (Failed e, os_error env v1 (''[zip:extract] failed: '' @ os_inspect env e))
               \<and> exit_code (Failed e) = 1)
            \<and> (cleanupMacArtifacts env v rootDir = Some (Inr (removedFiles, removedDirs), v1)
                \<and> listFilesRecursive env v1 rootDir = Some (Inr allFiles)
                \<and> listDirsRecursive env v1 rootDir = Some (Inr allDirs) \<longrightarrow>
               main env u zipArg outputArg
                 = Some (Completed,
                         os_logs env v1 (summary nestedCount nestedFailures removedFiles
                                           removedDirs allFiles allDirs))
               \<and> exit_code Completed = 0)"
    if r: "resolveZipFromArgs env u zipArg = Some (Inr zipPath, u1)"
      "toLowerCase (path_extname zipPath) = ''.zip''"
      "unzipToDir env
                 (os_logs env u1
                    [''[zip:extract] source zip: '' @ zipPath,
                     ''[zip:extract] requested output dir: ''
                       @ path_resolve (os_cwd env)
                           [case outputArg of
                              None \<Rightarrow> path_join [path_dirname zipPath,
                                        path_basename_suffix zipPath ''.zip'' @ ''_extracted'']
                            | Some given \<Rightarrow> given]])
                 zipPath
                 (path_resolve (os_cwd env)
                    [case outputArg of
                       None \<Rightarrow> path_join [path_dirname zipPath,
                                 path_basename_suffix zipPath ''.zip'' @ ''_extracted'']
                     | Some given \<Rightarrow> given])
               = (Inr rootDir, v0)"
      and a: "makeDirectoriesWritable env
                 (os_logs env v0 [''[zip:extract] output dir: '' @ rootDir,
                                  ''[zip:extract] root zip extracted.'']) rootDir
               = Some (Inr updated, v3)"
      "extractNestedZips env
                 (os_log env v3 (''[zip:extract] writable directory normalization: ''
                      @ show_nat updated @ '' dirs updated'')) rootDir
               = Some (Inr (nestedCount, nestedFailures), v)"
  proof -
    have m: "main env u zipArg outputArg = main_extracted env v0 rootDir"
      using r by (rule main_root_extracted)
    show ?thesis
      unfolding m using a by (simp add: main_extracted_def Let_def main_catch_def)
  qed
  from 1 2 3 4 5 6 show ?thesis by blast
qed

theorem C4_cleanup_stops_at_failure_witness:
  "cleanupMacArtifacts (fixed_os (refusing [''/home/u/upload/pack_extracted/.DS_Store''] [])) ()
        ''/home/u/upload/pack_extracted''
     = Some (Inl (Error ''EACCES: /home/u/upload/pack_extracted/.DS_Store''), ())
   \<and> cleanupMacArtifacts (fixed_os (refusing [''/home/u/upload/pack_extracted/__MACOSX''] [])) ()
        ''/home/u/upload/pack_extracted''
     = Some (Inl (Error ''EACCES: /home/u/upload/pack_extracted/__MACOSX''), ())
   \<and> main (fixed_os (refusing [''/home/u/upload/pack_extracted/__MACOSX''] [])) () None None
     = Some (Failed (Error ''EACCES: /home/u/upload/pack_extracted/__MACOSX''), ())
   \<and> main (fixed_os upload_sc) () None None = Some (Completed, ())
   \<and> cleanup_dirs (traced (fixed_os (refusing [''/out/__MACOSX/sub/__MACOSX''] []))) ((), [])
        (sort_deepest_first [''/out/__MACOSX'', ''/out/a'', ''/out/__MACOSX/sub/__MACOSX''
                             , ''/out/__MACOSX/sub'']) 0
     = (Inl (Error ''EACCES: /out/__MACOSX/sub/__MACOSX''),
        ((), [Rm ''/out/__MACOSX/sub/__MACOSX'' True]))
   \<and> (\<exists>k < length [''/out/__MACOSX/sub/__MACOSX'', ''/out/__MACOSX''].
         rm_calls [Rm ''/out/__MACOSX/sub/__MACOSX'' True]
           = rm_calls [] @ take (Suc k) [''/out/__MACOSX/sub/__MACOSX'', ''/out/__MACOSX''])"
proof -
  let ?root = "''/home/u/upload/pack_extracted''"
  let ?zip = "''/home/u/upload/pack.zip''"
  let ?files = "[''/home/u/upload/pack_extracted/a.zip'', ''/home/u/upload/pack_extracted/bad.zip'',
         ''/home/u/upload/pack_extracted/b.zip'', ''/home/u/upload/pack_extracted/.DS_Store'',
         ''/home/u/upload/pack_extracted/__MACOSX/._a.zip'']"
  let ?dirs = "[''/home/u/upload/pack_extracted/__MACOSX'']"

  txt \<open>The removal of a metadata file is refused.\<close>
  let ?osF = "fixed_os (refusing [''/home/u/upload/pack_extracted/.DS_Store''] [])"
  let ?eF = "Error ''EACCES: /home/u/upload/pack_extracted/.DS_Store''"
  have lF: "listFilesRecursive ?osF () ?root = Some (Inr ?files)" by code_simp
  have cF: "cleanup_files ?osF () ?files 0 = (Inl ?eF, ())" by code_simp
  note tF = C4_cleanup_stops_at_failure [OF refl refl, where env = ?osF and v = "()"
      and rootDir = ?root and files = ?files and e = ?eF and ?v1.0 = "()"]
  from tF [THEN conjunct2, THEN conjunct2, THEN conjunct2, THEN conjunct2, THEN conjunct1,
           THEN mp, OF lF, THEN conjunct1, THEN mp, OF cF]
  have kF: "cleanupMacArtifacts ?osF () ?root = Some (Inl ?eF, ())" .

  txt \<open>The removal of a \<^verbatim>\<open>__MACOSX\<close> directory is refused.\<close>
  let ?osD = "fixed_os (refusing [''/home/u/upload/pack_extracted/__MACOSX''] [])"
  let ?eD = "Error ''EACCES: /home/u/upload/pack_extracted/__MACOSX''"
  have lD: "listFilesRecursive ?osD () ?root = Some (Inr ?files)" by code_simp
  have cD: "cleanup_files ?osD () ?files 0 = (Inr 2, ())" by code_simp
  have dD: "listDirsRecursive ?osD () ?root = Some (Inr ?dirs)" by code_simp
  have xD: "cleanup_dirs ?osD () (sort_deepest_first ?dirs) 0 = (Inl ?eD, ())" by code_simp
  have rD: "resolveZipFromArgs ?osD () None = Some (Inr ?zip, ())" by code_simp
  have eD: "toLowerCase (path_extname ?zip) = ''.zip''" by code_simp
  have uD: "unzipToDir ?osD
                 (os_logs ?osD ()
                    [''[zip:extract] source zip: '' @ ?zip,
                     ''[zip:extract] requested output dir: ''
                       @ path_resolve (os_cwd ?osD)
                           [case None of
                              None \<Rightarrow> path_join [path_dirname ?zip,
                                        path_basename_suffix ?zip ''.zip'' @ ''_extracted'']
                            | Some given \<Rightarrow> given]])
                 ?zip
                 (path_resolve (os_cwd ?osD)
                    [case None of
                       None \<Rightarrow> path_join [path_dirname ?zip,
                                 path_basename_suffix ?zip ''.zip'' @ ''_extracted'']
                     | Some given \<Rightarrow> given])
               = (Inr ?root, ())"
    by code_simp
  have mD: "makeDirectoriesWritable ?osD
              (os_logs ?osD () [''[zip:extract] output dir: '' @ ?root,
                                ''[zip:extract] root zip extracted.'']) ?root
              = Some (Inr 2, ())" by code_simp
  have nD: "extractNestedZips ?osD
                 (os_log ?osD () (''[zip:extract] writable directory normalization: ''
                      @ show_nat 2 @ '' dirs updated'')) ?root
              = Some (Inr (2, 1), ())" by code_simp
  note tD = C4_cleanup_stops_at_failure [OF refl refl, where env = ?osD and v = "()"
      and rootDir = ?root and files = ?files and e = ?eD and ?v1.0 = "()" and ?v2.0 = "()"
      and removedFiles = 2 and dirs = ?dirs and u = "()" and ?u1.0 = "()" and ?v0.0 = "()"
      and ?v3.0 = "()" and zipArg = None and outputArg = None and zipPath = ?zip
      and updated = 2 and nestedCount = 2 and nestedFailures = 1]
  from tD [THEN conjunct2, THEN conjunct2, THEN conjunct2, THEN conjunct2, THEN conjunct1,
           THEN mp, OF lD, THEN conjunct2, THEN mp, OF conjI [OF cD dD], THEN conjunct1,
           THEN mp, OF xD]
  have kD: "cleanupMacArtifacts ?osD () ?root = Some (Inl ?eD, ())" .
  from tD [THEN conjunct2, THEN conjunct2, THEN conjunct2, THEN conjunct2, THEN conjunct2,
           THEN mp, OF conjI [OF rD conjI [OF eD conjI [OF uD conjI [OF mD nD]]]],
           THEN conjunct1, THEN mp, OF kD, THEN conjunct1]
  have "main ?osD () None None
          = Some (Failed ?eD, os_error ?osD () (''[zip:extract] failed: '' @ os_inspect ?osD ?eD))" .
  moreover have "os_error ?osD () (''[zip:extract] failed: '' @ os_inspect ?osD ?eD) = ()" by simp
  ultimately have fD: "main ?osD () None None = Some (Failed ?eD, ())" by (simp only:)

  txt \<open>No removal is refused.\<close>
  let ?ok = "fixed_os upload_sc"
  have r2: "resolveZipFromArgs ?ok () None = Some (Inr ?zip, ())" by code_simp
  have u2: "unzipToDir ?ok
                 (os_logs ?ok ()
                    [''[zip:extract] source zip: '' @ ?zip,
                     ''[zip:extract] requested output dir: ''
                       @ path_resolve (os_cwd ?ok)
                           [case None of
                              None \<Rightarrow> path_join [path_dirname ?zip,
                                        path_basename_suffix ?zip ''.zip'' @ ''_extracted'']
                            | Some given \<Rightarrow> given]])
                 ?zip
                 (path_resolve (os_cwd ?ok)
                    [case None of
                       None \<Rightarrow> path_join [path_dirname ?zip,
                                 path_basename_suffix ?zip ''.zip'' @ ''_extracted'']
                     | Some given \<Rightarrow> given])
               = (Inr ?root, ())"
    by code_simp
  have m2: "makeDirectoriesWritable ?ok
              (os_logs ?ok () [''[zip:extract] output dir: '' @ ?root,
                               ''[zip:extract] root zip extracted.'']) ?root
              = Some (Inr 2, ())" by code_simp
  have n2: "extractNestedZips ?ok
                 (os_log ?ok () (''[zip:extract] writable directory normalization: ''
                      @ show_nat 2 @ '' dirs updated'')) ?root
              = Some (Inr (2, 1), ())" by code_simp
  have k2: "cleanupMacArtifacts ?ok () ?root = Some (Inr (2, 1), ())" by code_simp
  have l2: "listFilesRecursive ?ok () ?root = Some (Inr ?files)" by code_simp
  have d2: "listDirsRecursive ?ok () ?root = Some (Inr ?dirs)" by code_simp
  note t2 = C4_cleanup_stops_at_failure [OF refl refl, where env = ?ok and v = "()"
      and rootDir = ?root and ?v1.0 = "()" and u = "()" and ?u1.0 = "()" and ?v0.0 = "()"
      and ?v3.0 = "()" and zipArg = None and outputArg = None and zipPath = ?zip
      and updated = 2 and nestedCount = 2 and nestedFailures = 1 and removedFiles = 2
      and removedDirs = 1 and allFiles = ?files and allDirs = ?dirs]
  from t2 [THEN conjunct2, THEN conjunct2, THEN conjunct2, THEN conjunct2, THEN conjunct2,
           THEN mp, OF conjI [OF r2 conjI [OF eD conjI [OF u2 conjI [OF m2 n2]]]],
           THEN conjunct2, THEN mp, OF conjI [OF k2 conjI [OF l2 d2]], THEN conjunct1]
  have "main ?ok () None None
          = Some (Completed, os_logs ?ok () (summary 2 1 2 1 ?files ?dirs))" .
  then have g: "main ?ok () None None = Some (Completed, ())" by simp

  txt \<open>Of two \<^verbatim>\<open>__MACOSX\<close> directories the first cannot be removed: the second is not tried.\<close>
  let ?osT = "fixed_os (refusing [''/out/__MACOSX/sub/__MACOSX''] [])"
  let ?found = "[''/out/__MACOSX'', ''/out/a'', ''/out/__MACOSX/sub/__MACOSX''
                             , ''/out/__MACOSX/sub'']"
  have j: "cleanup_dirs (traced ?osT) ((), []) (sort_deepest_first ?found) 0
     = (Inl (Error ''EACCES: /out/__MACOSX/sub/__MACOSX''),
        ((), [Rm ''/out/__MACOSX/sub/__MACOSX'' True]))"
    by code_simp
  have md: "filter (\<lambda>d. path_basename d = ''__MACOSX'') (sort_deepest_first ?found)
              = [''/out/__MACOSX/sub/__MACOSX'', ''/out/__MACOSX'']"
    by code_simp
  from C4_cleanup_stops_at_failure [OF refl md [symmetric], where os = ?osT and w = "()"
      and tr = "[]" and n = 0 and e = "Error ''EACCES: /out/__MACOSX/sub/__MACOSX''"
      and ?w1.0 = "()" and ?tr1.0 = "[Rm ''/out/__MACOSX/sub/__MACOSX'' True]",
      THEN conjunct2, THEN conjunct2, THEN conjunct1, THEN mp, OF j]
  have s: "\<exists>k < length [''/out/__MACOSX/sub/__MACOSX'', ''/out/__MACOSX''].
         rm_calls [Rm ''/out/__MACOSX/sub/__MACOSX'' True]
           = rm_calls [] @ take (Suc k) [''/out/__MACOSX/sub/__MACOSX'', ''/out/__MACOSX'']" .
  from kF kD fD g j s show ?thesis by (intro conjI)
qed

theorem C4_removal_failure_counterexample:
  "cleanupMacArtifacts (traced (fixed_os (refusing [''/home/u/upload/pack_extracted/.DS_Store''] [])))
        ((), []) ''/home/u/upload/pack_extracted''
     = Some (Inl (Error ''EACCES: /home/u/upload/pack_extracted/.DS_Store''),
             ((), [Rm ''/home/u/upload/pack_extracted/.DS_Store'' False]))
   \<and> cleanupMacArtifacts (traced (fixed_os upload_sc)) ((), []) ''/home/u/upload/pack_extracted''
     = Some (Inr (2, 1),
             ((), [Rm ''/home/u/upload/pack_extracted/.DS_Store'' False,
                   Rm ''/home/u/upload/pack_extracted/__MACOSX/._a.zip'' False,
                   Rm ''/home/u/upload/pack_extracted/__MACOSX'' True]))
   \<and> map_option fst (main (fixed_os (refusing [''/home/u/upload/pack_extracted/.DS_Store''] []))
                         () None None)
     = Some (Failed (Error ''EACCES: /home/u/upload/pack_extracted/.DS_Store''))
   \<and> exit_code (Failed (Error ''EACCES: /home/u/upload/pack_extracted/.DS_Store'')) = 1"
  by code_simp

lemma cleanup_dirs_journal:
  "cleanup_dirs (traced os) (w, tr) dirs n = (r, (w1, tr1)) \<Longrightarrow>
     \<exists>k \<le> length (filter (\<lambda>d. path_basename d = ''__MACOSX'') dirs).
        rm_calls tr1 = rm_calls tr @ take k (filter (\<lambda>d. path_basename d = ''__MACOSX'') dirs)
        \<and> (\<forall>m. r = Inr m \<longrightarrow>
              k = length (filter (\<lambda>d. path_basename d = ''__MACOSX'') dirs) \<and> m = n + k)"
proof (induction dirs arbitrary: w tr n)
  case Nil
  then show ?case by auto
next
  case (Cons d dirs)
  let ?P = "\<lambda>d. path_basename d = ''__MACOSX''"
  show ?case
  proof (cases "?P d")
    case False
    with Cons.prems have "cleanup_dirs (traced os) (w, tr) dirs n = (r, (w1, tr1))" by simp
    from Cons.IH [OF this] False show ?thesis by simp
  next
    case True
    show ?thesis
    proof (cases "fst (os_rm os w d True)")
      case (Some e)
      with Cons.prems True have "r = Inl e" "tr1 = tr @ [Rm d True]"
        by (auto simp: traced_rm)
      with True show ?thesis
        by (intro exI [where x = 1]) (auto simp: rm_calls_append)
    next
      case None
      with Cons.prems True
      have "cleanup_dirs (traced os) (snd (os_rm os w d True), tr @ [Rm d True]) dirs (n + 1)
              = (r, (w1, tr1))"
        by (auto simp: traced_rm)
      from Cons.IH [OF this] obtain k where k: "k \<le> length (filter ?P dirs)"
        and t: "rm_calls tr1 = rm_calls (tr @ [Rm d True]) @ take k (filter ?P dirs)"
        and m: "\<forall>m. r = Inr m \<longrightarrow> k = length (filter ?P dirs) \<and> m = n + 1 + k"
        by blast
      show ?thesis
        using k t m True
        by (intro exI [where x = "Suc k"]) (auto simp: rm_calls_append)
    qed
  qed
qed

lemma nested_in_longer: "nested_in q p \<Longrightarrow> length p < length q"
proof -
  assume "nested_in q p"
  then have "take (Suc (length p)) q = p @ ''/''" by (simp add: nested_in_def startsWith_def)
  then have "length (take (Suc (length p)) q) = Suc (length p)" by simp
  then show ?thesis by simp
qed

lemma deepest_first_sorted:
  "sorted (map (\<lambda>d. - int (length d)) (filter P (sort_deepest_first dirs)))"
  unfolding sort_deepest_first_def by (rule sorted_filter) simp

lemma deepest_first_order:
  assumes "ds = filter P (sort_deepest_first dirs)" "i < j" "j < length ds"
  shows "length (ds ! j) \<le> length (ds ! i)"
proof -
  have "sorted (map (\<lambda>d. - int (length d)) ds)" using assms(1) deepest_first_sorted by simp
  from sorted_nth_mono [OF this, of i j] assms(2,3) show ?thesis by simp
qed

lemma same_dirs_same_lengths:
  assumes "mset dirs' = mset dirs"
  shows "mset (filter P (sort_deepest_first dirs')) = mset (filter P (sort_deepest_first dirs))"
    and "map length (filter P (sort_deepest_first dirs'))
           = map length (filter P (sort_deepest_first dirs))"
proof -
  let ?f = "\<lambda>d. - int (length d)"
  let ?a = "filter P (sort_deepest_first dirs')" and ?b = "filter P (sort_deepest_first dirs)"
  show m: "mset ?a = mset ?b" using assms by (simp add: sort_deepest_first_def)
  have "mset (map ?f ?a) = mset (map ?f ?b)" using m by (metis mset_map)
  moreover have "sorted (map ?f ?a)" "sorted (map ?f ?b)" by (rule deepest_first_sorted)+
  ultimately have "map ?f ?a = map ?f ?b"
    by (metis properties_for_sort)
  then have "map (\<lambda>x. nat (- x)) (map ?f ?a) = map (\<lambda>x. nat (- x)) (map ?f ?b)" by simp
  then show "map length ?a = map length ?b" by (simp add: comp_def)
qed

lemma same_dirs_same_order:
  assumes "mset dirs' = mset dirs"
    and "distinct (map length (filter P (sort_deepest_first dirs)))"
  shows "filter P (sort_deepest_first dirs') = filter P (sort_deepest_first dirs)"
proof -
  let ?a = "filter P (sort_deepest_first dirs')" and ?b = "filter P (sort_deepest_first dirs)"
  from same_dirs_same_lengths [OF assms(1), of P]
  have m: "mset ?a = mset ?b" and l: "map length ?a = map length ?b" by blast+
  from m have s: "set ?a = set ?b" by (metis set_mset_mset)
  from assms(2) have "inj_on length (set ?b)" by (simp add: distinct_map)
  with s have "inj_on length (set ?a \<union> set ?b)" by simp
  with l show ?thesis by (rule map_inj_on)
qed

lemma deepest_first_stable:
  "filter (\<lambda>d. length d = k) (filter P (sort_deepest_first dirs))
     = filter (\<lambda>d. length d = k) (filter P dirs)"
proof -
  have "filter (\<lambda>d. - int (length d) = - int k) (sort_key (\<lambda>d. - int (length d)) dirs)
          = filter (\<lambda>d. - int (length d) = - int k) dirs"
    by (rule sort_key_stable)
  then have s: "filter (\<lambda>d. length d = k) (sort_deepest_first dirs) = filter (\<lambda>d. length d = k) dirs"
    by (simp add: sort_deepest_first_def)
  have "filter (\<lambda>d. length d = k) (filter P (sort_deepest_first dirs))
          = filter P (filter (\<lambda>d. length d = k) (sort_deepest_first dirs))"
    by (simp add: conj_commute)
  also have "\<dots> = filter P (filter (\<lambda>d. length d = k) dirs)" by (simp only: s)
  also have "\<dots> = filter (\<lambda>d. length d = k) (filter P dirs)" by (simp add: conj_commute)
  finally show ?thesis .
qed

text \<open>
  C5 (as amended). The \<^verbatim>\<open>__MACOSX\<close> directories are removed in the order of the
  stable sort by descending path length: the removals made are an initial part of that
  list (all of it when none fails); a directory removed later is never longer than one
  removed earlier, so no directory is removed before one nested inside it; and the
  directories of any one length are removed in the order in which they were found.
  Two discovery orders of the same directories give removal orders with the same
  directories and the same sequence of lengths; they are the same order when the
  lengths of the \<^verbatim>\<open>__MACOSX\<close> paths are pairwise different.
\<close>

theorem C5_deepest_first:
  assumes "ds = filter (\<lambda>d. path_basename d = ''__MACOSX'') (sort_deepest_first dirs)"
  shows "(cleanup_dirs (traced os) (w, tr) (sort_deepest_first dirs) n = (r, (w1, tr1)) \<longrightarrow>
            (\<exists>k \<le> length ds. rm_calls tr1 = rm_calls tr @ take k ds
                               \<and> (\<forall>m. r = Inr m \<longrightarrow> k = length ds)))
       \<and> (i < j \<and> j < length ds \<longrightarrow>
            length (ds ! j) \<le> length (ds ! i) \<and> \<not> nested_in (ds ! j) (ds ! i))
       \<and> filter (\<lambda>d. length d = len) ds
           = filter (\<lambda>d. length d = len) (filter (\<lambda>d. path_basename d = ''__MACOSX'') dirs)
       \<and> (mset dirs' = mset dirs \<longrightarrow>
            mset (filter (\<lambda>d. path_basename d = ''__MACOSX'') (sort_deepest_first dirs')) = mset ds
            \<and> map length (filter (\<lambda>d. path_basename d = ''__MACOSX'') (sort_deepest_first dirs'))
                = map length ds
            \<and> (distinct (map length ds) \<longrightarrow>
                  filter (\<lambda>d. path_basename d = ''__MACOSX'') (sort_deepest_first dirs') = ds))"
proof (intro conjI impI)
  assume "cleanup_dirs (traced os) (w, tr) (sort_deepest_first dirs) n = (r, (w1, tr1))"
  from cleanup_dirs_journal [OF this] assms
  show "\<exists>k \<le> length ds. rm_calls tr1 = rm_calls tr @ take k ds
                               \<and> (\<forall>m. r = Inr m \<longrightarrow> k = length ds)"
    by blast
next
  assume ij: "i < j \<and> j < length ds"
  with deepest_first_order [OF assms, of i j]
  show le: "length (ds ! j) \<le> length (ds ! i)" by simp
  show "\<not> nested_in (ds ! j) (ds ! i)"
  proof
    assume "nested_in (ds ! j) (ds ! i)"
    from nested_in_longer [OF this] le show False by simp
  qed
next
  show "filter (\<lambda>d. length d = len) ds
          = filter (\<lambda>d. length d = len) (filter (\<lambda>d. path_basename d = ''__MACOSX'') dirs)"
    unfolding assms by (rule deepest_first_stable)
next
  assume m: "mset dirs' = mset dirs"
  from same_dirs_same_lengths [OF m, of "\<lambda>d. path_basename d = ''__MACOSX''"] assms
  show "mset (filter (\<lambda>d. path_basename d = ''__MACOSX'') (sort_deepest_first dirs')) = mset ds"
    and "map length (filter (\<lambda>d. path_basename d = ''__MACOSX'') (sort_deepest_first dirs'))
           = map length ds"
    by simp_all
  {
    assume "distinct (map length ds)"
    with same_dirs_same_order [OF m, of "\<lambda>d. path_basename d = ''__MACOSX''"] assms
    show "filter (\<lambda>d. path_basename d = ''__MACOSX'') (sort_deepest_first dirs') = ds"
      by simp
  }
qed

theorem C5_deepest_first_witness:
  "[''/out/__MACOSX/sub/__MACOSX'', ''/out/__MACOSX'']
     = filter (\<lambda>d. path_basename d = ''__MACOSX'')
         (sort_deepest_first [''/out/__MACOSX'', ''/out/a'', ''/out/__MACOSX/sub/__MACOSX'',
                              ''/out/__MACOSX/sub''])
   \<and> cleanup_dirs (traced (fixed_os upload_sc)) ((), [])
        (sort_deepest_first [''/out/__MACOSX'', ''/out/a'', ''/out/__MACOSX/sub/__MACOSX'',
                             ''/out/__MACOSX/sub'']) 0
       = (Inr 2, ((), [Rm ''/out/__MACOSX/sub/__MACOSX'' True, Rm ''/out/__MACOSX'' True]))
   \<and> nested_in ''/out/__MACOSX/sub/__MACOSX'' ''/out/__MACOSX''
   \<and> \<not> nested_in ''/out/__MACOSX'' ''/out/__MACOSX/sub/__MACOSX''
   \<and> mset [''/out/__MACOSX/sub'', ''/out/__MACOSX/sub/__MACOSX'', ''/out/a'', ''/out/__MACOSX'']
       = mset [''/out/__MACOSX'', ''/out/a'', ''/out/__MACOSX/sub/__MACOSX'', ''/out/__MACOSX/sub'']
   \<and> filter (\<lambda>d. path_basename d = ''__MACOSX'')
         (sort_deepest_first [''/out/__MACOSX/sub'', ''/out/__MACOSX/sub/__MACOSX'', ''/out/a'',
                              ''/out/__MACOSX''])
       = [''/out/__MACOSX/sub/__MACOSX'', ''/out/__MACOSX'']
   \<and> filter (\<lambda>d. length d = 15)
         (filter (\<lambda>d. path_basename d = ''__MACOSX'')
            (sort_deepest_first [''/out/b'', ''/out/b/__MACOSX'', ''/out/a/__MACOSX'', ''/out/a'']))
       = [''/out/b/__MACOSX'', ''/out/a/__MACOSX'']"
proof -
  let ?dirs = "[''/out/__MACOSX'', ''/out/a'', ''/out/__MACOSX/sub/__MACOSX'', ''/out/__MACOSX/sub'']"
  let ?dirs' = "[''/out/__MACOSX/sub'', ''/out/__MACOSX/sub/__MACOSX'', ''/out/a'', ''/out/__MACOSX'']"
  let ?ds = "[''/out/__MACOSX/sub/__MACOSX'', ''/out/__MACOSX'']"
  let ?found = "[''/out/b'', ''/out/b/__MACOSX'', ''/out/a/__MACOSX'', ''/out/a'']"
  have d: "?ds = filter (\<lambda>d. path_basename d = ''__MACOSX'') (sort_deepest_first ?dirs)"
    by code_simp
  have c: "cleanup_dirs (traced (fixed_os upload_sc)) ((), []) (sort_deepest_first ?dirs) 0
       = (Inr 2, ((), [Rm ''/out/__MACOSX/sub/__MACOSX'' True, Rm ''/out/__MACOSX'' True]))"
    by code_simp
  have n: "nested_in ''/out/__MACOSX/sub/__MACOSX'' ''/out/__MACOSX''" by code_simp
  have m: "mset ?dirs' = mset ?dirs" by simp
  have x: "distinct (map length ?ds)" by simp
  note t = C5_deepest_first [OF d, where i = 0 and j = 1 and dirs' = ?dirs']
  from t [THEN conjunct2, THEN conjunct1]
  have "\<not> nested_in (?ds ! 1) (?ds ! 0)" by simp
  then have nn: "\<not> nested_in ''/out/__MACOSX'' ''/out/__MACOSX/sub/__MACOSX''" by simp
  from t [THEN conjunct2, THEN conjunct2, THEN conjunct2, THEN mp, OF m] x
  have e: "filter (\<lambda>d. path_basename d = ''__MACOSX'') (sort_deepest_first ?dirs') = ?ds"
    by blast
  have f: "filter (\<lambda>d. length d = 15) (filter (\<lambda>d. path_basename d = ''__MACOSX'') ?found)
             = [''/out/b/__MACOSX'', ''/out/a/__MACOSX'']"
    by code_simp
  from C5_deepest_first [OF refl, where dirs = ?found and len = 15,
      THEN conjunct2, THEN conjunct2, THEN conjunct1] f
  have s: "filter (\<lambda>d. length d = 15)
         (filter (\<lambda>d. path_basename d = ''__MACOSX'') (sort_deepest_first ?found))
       = [''/out/b/__MACOSX'', ''/out/a/__MACOSX'']"
    by (simp only:)
  from d c n nn m e s show ?thesis by blast
qed

theorem C5_discovery_order_counterexample:
  "listDirsRecursive (fixed_os (two_macosx [''a'', ''b''])) () ''/out''
     = Some (Inr [''/out/a'', ''/out/b'', ''/out/b/__MACOSX'', ''/out/a/__MACOSX''])
   \<and> listDirsRecursive (fixed_os (two_macosx [''b'', ''a''])) () ''/out''
     = Some (Inr [''/out/b'', ''/out/a'', ''/out/a/__MACOSX'', ''/out/b/__MACOSX''])
   \<and> set [''/out/a'', ''/out/b'', ''/out/b/__MACOSX'', ''/out/a/__MACOSX'']
     = set [''/out/b'', ''/out/a'', ''/out/a/__MACOSX'', ''/out/b/__MACOSX'']
   \<and> cleanupMacArtifacts (traced (fixed_os (two_macosx [''a'', ''b'']))) ((), []) ''/out''
     = Some (Inr (0, 2), ((), [Rm ''/out/b/__MACOSX'' True, Rm ''/out/a/__MACOSX'' True]))
   \<and> cleanupMacArtifacts (traced (fixed_os (two_macosx [''b'', ''a'']))) ((), []) ''/out''
     = Some (Inr (0, 2), ((), [Rm ''/out/a/__MACOSX'' True, Rm ''/out/b/__MACOSX'' True]))
   \<and> sort_deepest_first [''/out/a'', ''/out/b'', ''/out/b/__MACOSX'', ''/out/a/__MACOSX'']
     \<noteq> sort_deepest_first [''/out/b'', ''/out/a'', ''/out/a/__MACOSX'', ''/out/b/__MACOSX'']"
proof -
  have a: "listDirsRecursive (fixed_os (two_macosx [''a'', ''b''])) () ''/out''
     = Some (Inr [''/out/a'', ''/out/b'', ''/out/b/__MACOSX'', ''/out/a/__MACOSX''])"
    by code_simp
  have b: "listDirsRecursive (fixed_os (two_macosx [''b'', ''a''])) () ''/out''
     = Some (Inr [''/out/b'', ''/out/a'', ''/out/a/__MACOSX'', ''/out/b/__MACOSX''])"
    by code_simp
  have s: "set [''/out/a'', ''/out/b'', ''/out/b/__MACOSX'', ''/out/a/__MACOSX'']
     = set [''/out/b'', ''/out/a'', ''/out/a/__MACOSX'', ''/out/b/__MACOSX'']"
    by auto
  have c: "cleanupMacArtifacts (traced (fixed_os (two_macosx [''a'', ''b'']))) ((), []) ''/out''
     = Some (Inr (0, 2), ((), [Rm ''/out/b/__MACOSX'' True, Rm ''/out/a/__MACOSX'' True]))"
    by code_simp
  have d: "cleanupMacArtifacts (traced (fixed_os (two_macosx [''b'', ''a'']))) ((), []) ''/out''
     = Some (Inr (0, 2), ((), [Rm ''/out/a/__MACOSX'' True, Rm ''/out/b/__MACOSX'' True]))"
    by code_simp
  have e: "sort_deepest_first [''/out/a'', ''/out/b'', ''/out/b/__MACOSX'', ''/out/a/__MACOSX'']
     \<noteq> sort_deepest_first [''/out/b'', ''/out/a'', ''/out/a/__MACOSX'', ''/out/b/__MACOSX'']"
    by code_simp
  from a b s c d e show ?thesis by blast
qed

section \<open>The nested-extraction loop\<close>

subsection \<open>Paths of well-formed segments\<close>

lemma abs_path_simps [simp]:
  "abs_path [] = []"
  "abs_path (s # segs) = CHR ''/'' # s @ abs_path segs"
  "abs_path (xs @ ys) = abs_path xs @ abs_path ys"
  by (simp_all add: abs_path_def)

lemma split_slash_no_slash:
  "CHR ''/'' \<notin> set s \<Longrightarrow> split_slash acc (s @ rest) = split_slash (rev s @ acc) rest"
  by (induction s arbitrary: acc) (auto simp: is_slash_def)

lemma split_slash_abs_path:
  "\<forall>s\<in>set segs. segment s \<Longrightarrow>
     split_slash acc (abs_path segs) = rev acc # segs"
proof (induction segs arbitrary: acc)
  case Nil
  then show ?case by simp
next
  case (Cons s segs)
  then have ns: "CHR ''/'' \<notin> set s" and rest: "\<forall>s\<in>set segs. segment s"
    by (auto simp: segment_def)
  have "split_slash acc (abs_path (s # segs)) = rev acc # split_slash [] (s @ abs_path segs)"
    by (simp add: is_slash_def)
  also have "split_slash [] (s @ abs_path segs) = split_slash (rev s) (abs_path segs)"
    using split_slash_no_slash [OF ns, of "[]"] by simp
  also have "\<dots> = s # segs" using Cons.IH [OF rest, of "rev s"] by simp
  finally show ?case .
qed

lemma normalize_segments_plain:
  "\<forall>s\<in>set segs. segment s \<Longrightarrow> normalize_segments b res segs = rev res @ segs"
  by (induction segs arbitrary: res) (auto simp: segment_def)

lemma join_slash_abs: "segs \<noteq> [] \<Longrightarrow> CHR ''/'' # join_slash segs = abs_path segs"
  by (induction segs rule: join_slash.induct) auto

lemma normalizeString_abs_path:
  assumes "\<forall>s\<in>set segs. segment s"
  shows "normalizeString (abs_path segs) b = join_slash segs"
proof -
  have "normalize_segments b [] ([] # segs) = normalize_segments b [] segs" by simp
  with split_slash_abs_path [OF assms, of "[]"] normalize_segments_plain [OF assms, of b "[]"]
  show ?thesis by (simp add: normalizeString_def)
qed

lemma abs_path_last:
  assumes "\<forall>s\<in>set segs. segment s" "segs \<noteq> []"
  shows "abs_path segs \<noteq> []" "hd (abs_path segs) = CHR ''/''" "last (abs_path segs) \<noteq> CHR ''/''"
proof -
  from assms(2) obtain xs s where x: "segs = xs @ [s]" by (metis rev_exhaust)
  with assms(1) have s: "s \<noteq> []" "CHR ''/'' \<notin> set s" by (auto simp: segment_def)
  show "abs_path segs \<noteq> []" using x by simp
  show "hd (abs_path segs) = CHR ''/''" using assms(2) by (cases segs) auto
  have "last (abs_path segs) = last s" using x s by simp
  moreover have "last s \<in> set s" using s by simp
  ultimately show "last (abs_path segs) \<noteq> CHR ''/''" using s by metis
qed

lemma join_slash_nonempty:
  "segs \<noteq> [] \<Longrightarrow> \<forall>s\<in>set segs. s \<noteq> [] \<Longrightarrow> join_slash segs \<noteq> []"
  by (induction segs rule: join_slash.induct) auto

lemma path_normalize_abs_path:
  assumes "\<forall>s\<in>set segs. segment s" "segs \<noteq> []"
  shows "path_normalize (abs_path segs) = abs_path segs"
proof -
  from assms have "join_slash segs \<noteq> []"
    by (intro join_slash_nonempty) (auto simp: segment_def)
  with join_slash_abs [OF assms(2)]
  have j: "join_slash segs \<noteq> []" "''/'' @ join_slash segs = abs_path segs"
    by auto
  with abs_path_last [OF assms] normalizeString_abs_path [OF assms(1)]
  show ?thesis by (simp add: path_normalize_def is_slash_def Let_def)
qed

lemma path_join_abs_path:
  assumes "\<forall>s\<in>set segs. segment s" "segs \<noteq> []" "segment name"
  shows "path_join [abs_path segs, name] = abs_path (segs @ [name])"
proof -
  from assms have a: "\<forall>s\<in>set (segs @ [name]). segment s" by simp
  from assms(3) have n: "name \<noteq> []" by (simp add: segment_def)
  from abs_path_last(1) [OF assms(1,2)] n
  have "join_slash (filter (\<lambda>a. a \<noteq> []) [abs_path segs, name]) = abs_path (segs @ [name])"
    by simp
  with path_normalize_abs_path [OF a] show ?thesis by (simp add: path_join_def Let_def)
qed

subsection \<open>A walk lists no file twice\<close>

lemma split_slash_plain: "CHR ''/'' \<notin> set s \<Longrightarrow> split_slash acc s = [rev acc @ s]"
  using split_slash_no_slash [of s acc "[]"] by simp

lemma path_join_root:
  assumes "segment name"
  shows "path_join [''/'', name] = abs_path [name]"
proof -
  from assms have n: "name \<noteq> []" "CHR ''/'' \<notin> set name" "name \<noteq> ''.''" "name \<noteq> ''..''"
    by (auto simp: segment_def)
  have s: "split_slash [] (''//'' @ name) = [[], [], name]"
    using split_slash_plain [OF n(2), of "[]"] by (simp add: is_slash_def)
  have q: "normalizeString (''//'' @ name) False = name"
    unfolding normalizeString_def s using n by simp
  have l: "last (''//'' @ name) \<noteq> CHR ''/''"
    using n(1,2) by (metis last_appendR last_in_set)
  have "path_normalize (''//'' @ name) = ''/'' @ name"
    using q l n(1) by (simp add: path_normalize_def is_slash_def Let_def)
  with n(1) show ?thesis by (simp add: path_join_def Let_def)
qed

lemma path_join_root_path:
  assumes "\<forall>s\<in>set segs. segment s" "segment name"
  shows "path_join [root_path segs, name] = abs_path (segs @ [name])"
proof (cases "segs = []")
  case True
  with path_join_root [OF assms(2)] show ?thesis by (simp add: root_path_def)
next
  case False
  with path_join_abs_path [OF assms(1) False assms(2)] show ?thesis by (simp add: root_path_def)
qed

lemma abs_path_inject:
  assumes "\<forall>s\<in>set xs. segment s" "\<forall>s\<in>set ys. segment s" "abs_path xs = abs_path ys"
  shows "xs = ys"
proof -
  have "[] # xs = split_slash [] (abs_path xs)"
    using split_slash_abs_path [OF assms(1), of "[]"] by simp
  also have "\<dots> = split_slash [] (abs_path ys)" by (simp only: assms(3))
  also have "\<dots> = [] # ys" using split_slash_abs_path [OF assms(2), of "[]"] by simp
  finally show ?thesis by simp
qed

lemma listFiles_entries_result:
  assumes "\<forall>s\<in>set cur. segment s" "\<forall>e\<in>set entries. segment (d_name e)"
  shows "listFiles_entries (root_path cur) entries stack out
           = (rev (map (\<lambda>e. abs_path (cur @ [d_name e])) (filter (\<lambda>e. d_kind e = Directory) entries))
                @ stack,
              out @ map (\<lambda>e. abs_path (cur @ [d_name e])) (filter (\<lambda>e. d_kind e = File) entries))"
  using assms(2)
proof (induction entries arbitrary: stack out)
  case Nil
  then show ?case by simp
next
  case (Cons e entries)
  then have j: "path_join [root_path cur, d_name e] = abs_path (cur @ [d_name e])"
    using path_join_root_path [OF assms(1), of "d_name e"] by simp
  from Cons have r: "\<forall>e\<in>set entries. segment (d_name e)" by simp
  show ?case
    using Cons.IH [OF r] j by (cases "d_kind e") (simp_all add: Let_def)
qed

lemma take_root_length:
  assumes "take (length r) x = r"
  shows "length r \<le> length x"
proof -
  have "length (take (length r) x) = length r" by (simp only: assms)
  then show ?thesis by simp
qed

lemma walk_inv_step:
  assumes inv: "walk_inv r (cur # S) V F"
    and names: "distinct (map d_name entries)" "\<forall>e\<in>set entries. segment (d_name e)"
    and C: "C = map (\<lambda>e. cur @ [d_name e]) (filter (\<lambda>e. d_kind e = Directory) entries)"
    and N: "N = map (\<lambda>e. cur @ [d_name e]) (filter (\<lambda>e. d_kind e = File) entries)"
  shows "walk_inv r (rev C @ S) (cur # V) (F @ N)"
proof -
  from inv have d: "distinct (cur # S @ V)"
    and old: "\<forall>x\<in>set (cur # S) \<union> set V. (\<forall>s\<in>set x. segment s) \<and> take (length r) x = r
                  \<and> (x \<noteq> r \<longrightarrow> butlast x \<in> set V)"
    and dF: "distinct F"
    and oldF: "\<forall>f\<in>set F. (\<forall>s\<in>set f. segment s) \<and> f \<noteq> [] \<and> butlast f \<in> set V"
    by (simp_all add: walk_inv_def)
  from old have cur: "\<forall>s\<in>set cur. segment s" "take (length r) cur = r" by simp_all
  from take_root_length [OF cur(2)] have len: "length r \<le> length cur" .
  from d have cV: "cur \<notin> set V" "cur \<notin> set S" by auto
  have inj: "inj_on (\<lambda>e. cur @ [d_name e]) (set entries)"
    using names(1) by (auto simp: inj_on_def distinct_map)
  have de: "distinct entries" using names(1) by (simp add: distinct_map)
  have dC: "distinct C"
    unfolding C using inj de by (auto simp: distinct_map intro: inj_on_subset)
  have dN: "distinct N"
    unfolding N using inj de by (auto simp: distinct_map intro: inj_on_subset)
  have child: "\<exists>n. c = cur @ [n] \<and> segment n" if "c \<in> set C \<union> set N" for c
    using that names(2) unfolding C N by auto
  have fresh: "c \<notin> set (cur # S) \<union> set V" if "c \<in> set C \<union> set N" for c
  proof
    assume m: "c \<in> set (cur # S) \<union> set V"
    from child [OF that] obtain n where c: "c = cur @ [n]" by blast
    with len have "c \<noteq> r" by auto
    with old m have "butlast c \<in> set V" by blast
    with c cV show False by simp
  qed
  have notF: "c \<notin> set F" if "c \<in> set C \<union> set N" for c
  proof
    assume "c \<in> set F"
    with oldF have "butlast c \<in> set V" by blast
    moreover from child [OF that] obtain n where "c = cur @ [n]" by blast
    ultimately show False using cV by simp
  qed
  have 1: "distinct ((rev C @ S) @ cur # V)"
    using d dC fresh by auto
  have 2: "\<forall>x\<in>set (rev C @ S) \<union> set (cur # V). (\<forall>s\<in>set x. segment s) \<and> take (length r) x = r
                  \<and> (x \<noteq> r \<longrightarrow> butlast x \<in> set (cur # V))"
  proof
    fix x assume x: "x \<in> set (rev C @ S) \<union> set (cur # V)"
    show "(\<forall>s\<in>set x. segment s) \<and> take (length r) x = r \<and> (x \<noteq> r \<longrightarrow> butlast x \<in> set (cur # V))"
    proof (cases "x \<in> set C")
      case True
      with child [of x] obtain n where n: "x = cur @ [n]" "segment n" by blast
      with cur len show ?thesis by simp
    next
      case False
      with x have "x \<in> set (cur # S) \<union> set V" by auto
      with old show ?thesis by auto
    qed
  qed
  have 3: "distinct (F @ N)" using dF dN notF by auto
  have 4: "\<forall>f\<in>set (F @ N). (\<forall>s\<in>set f. segment s) \<and> f \<noteq> [] \<and> butlast f \<in> set (cur # V)"
  proof
    fix f assume f: "f \<in> set (F @ N)"
    show "(\<forall>s\<in>set f. segment s) \<and> f \<noteq> [] \<and> butlast f \<in> set (cur # V)"
    proof (cases "f \<in> set N")
      case True
      with child [of f] obtain n where n: "f = cur @ [n]" "segment n" by blast
      with cur show ?thesis by simp
    next
      case False
      with f have "f \<in> set F" by simp
      with oldF show ?thesis by auto
    qed
  qed
  from 1 2 3 4 show ?thesis unfolding walk_inv_def by blast
qed

lemma listFiles_while_distinct:
  assumes run: "listFiles_while os w stack out = Some y"
    and names: "proper_listings os"
    and inv: "stack = map root_path S" "out = map abs_path F" "walk_inv r S V F"
  shows "\<forall>files. y = Inr files \<longrightarrow> distinct files"
  using names inv
proof (induction os w stack out y arbitrary: S V F rule: listFiles_while.raw_induct)
  case (1 f os w stack out y)
  note IH = 1(1) and body = 1(2) and names = 1(3) and st = 1(4) and ou = 1(5) and inv = 1(6)
  show ?case
  proof (cases S)
    case Nil
    with body st ou have y: "y = Inr (map abs_path F)" by simp
    from inv have "distinct F" "\<forall>f\<in>set F. \<forall>s\<in>set f. segment s"
      by (simp_all add: walk_inv_def)
    then have "distinct (map abs_path F)"
      by (auto simp: distinct_map inj_on_def intro: abs_path_inject)
    with y show ?thesis by simp
  next
    case (Cons cur S')
    with st have stack: "stack = root_path cur # map root_path S'" by simp
    from inv Cons have cur: "\<forall>s\<in>set cur. segment s" by (simp add: walk_inv_def)
    show ?thesis
    proof (cases "os_readdir os w (root_path cur)")
      case (Inl e)
      with body stack have "y = Inl e" by simp
      then show ?thesis by simp
    next
      case (Inr entries)
      with names have n: "distinct (map d_name entries)" "\<forall>e\<in>set entries. segment (d_name e)"
        unfolding proper_listings_def by blast+
      define C where "C = map (\<lambda>e. cur @ [d_name e]) (filter (\<lambda>e. d_kind e = Directory) entries)"
      define N where "N = map (\<lambda>e. cur @ [d_name e]) (filter (\<lambda>e. d_kind e = File) entries)"
      have rp: "map abs_path C = map root_path C"
        unfolding C_def by (simp add: root_path_def)
      from listFiles_entries_result [OF cur n(2), of "map root_path S'" out]
      have e: "listFiles_entries (root_path cur) entries (map root_path S') out
                 = (map root_path (rev C @ S'), map abs_path (F @ N))"
        using rp by (simp add: C_def N_def ou comp_def rev_map)
      with body stack Inr
      have rec: "f os w (map root_path (rev C @ S')) (map abs_path (F @ N)) = Some y"
        by simp
      from walk_inv_step [OF _ n C_def N_def] inv Cons
      have "walk_inv r (rev C @ S') (cur # V) (F @ N)" by simp
      from IH [OF rec names refl refl this] show ?thesis .
    qed
  qed
qed fact

lemma listFilesRecursive_distinct:
  assumes "proper_listings os" "\<forall>s\<in>set r. segment s"
    and "listFilesRecursive os w (root_path r) = Some (Inr files)"
  shows "distinct files"
proof -
  have i: "walk_inv r [r] [] []" using assms(2) by (simp add: walk_inv_def)
  from assms(3) have "listFiles_while os w [root_path r] [] = Some (Inr files)"
    by (simp add: listFilesRecursive_def)
  from listFiles_while_distinct [OF this assms(1) _ _ i] show ?thesis by simp
qed

subsection \<open>The journal does not change what a run reads\<close>

lemma traced_reads [simp]:
  "os_readdir (traced os) W p = os_readdir os (fst W) p"
  "os_stat (traced os) W p = os_stat os (fst W) p"
  "os_now (traced os) W = os_now os (fst W)"
  "os_cwd (traced os) = os_cwd os"
  by (simp_all add: traced_def split_beta)





lemma listDirs_while_traced_1:
  assumes "listDirs_while (traced os) W stack out = Some y"
  shows "listDirs_while os (fst W) stack out = Some y"
proof (induction "traced os" W stack out y rule: listDirs_while.raw_induct)
  case (1 f W stack out y)
  show ?case
  proof (cases stack)
    case Nil
    with 1(2) show ?thesis by (simp add: listDirs_while.simps)
  next
    case (Cons current rest)
    show ?thesis
    proof (cases "os_readdir os (fst W) current")
      case (Inl e)
      with 1(2) Cons show ?thesis by (simp add: listDirs_while.simps)
    next
      case (Inr entries)
      obtain stack' out' where s: "listDirs_entries current entries rest out = (stack', out')"
        by (cases "listDirs_entries current entries rest out")
      with 1(2) Cons Inr have "f (traced os) W stack' out' = Some y" by simp
      from 1(1) [OF this] have "listDirs_while os (fst W) stack' out' = Some y" .
      with Cons Inr s show ?thesis by (subst listDirs_while.simps) simp
    qed
  qed
qed fact

lemma listDirs_while_traced_2:
  assumes "listDirs_while os w stack out = Some y"
  shows "listDirs_while (traced os) (w, tr) stack out = Some y"
proof (induction os w stack out y rule: listDirs_while.raw_induct)
  case (1 f os w stack out y)
  show ?case
  proof (cases stack)
    case Nil
    with 1(2) show ?thesis by (simp add: listDirs_while.simps)
  next
    case (Cons current rest)
    show ?thesis
    proof (cases "os_readdir os w current")
      case (Inl e)
      with 1(2) Cons show ?thesis by (simp add: listDirs_while.simps)
    next
      case (Inr entries)
      obtain stack' out' where s: "listDirs_entries current entries rest out = (stack', out')"
        by (cases "listDirs_entries current entries rest out")
      with 1(2) Cons Inr have "f os w stack' out' = Some y" by simp
      from 1(1) [OF this] have "listDirs_while (traced os) (w, tr) stack' out' = Some y" .
      with Cons Inr s show ?thesis by (subst listDirs_while.simps) simp
    qed
  qed
qed fact

lemma listDirsRecursive_traced:
  "listDirsRecursive (traced os) W d = listDirsRecursive os (fst W) d"
proof (cases "listDirsRecursive (traced os) W d")
  case None
  show ?thesis
  proof (cases "listDirsRecursive os (fst W) d")
    case None
    with \<open>listDirsRecursive (traced os) W d = None\<close> show ?thesis by simp
  next
    case (Some y)
    then have "listDirs_while (traced os) (fst W, snd W) [d] [] = Some y"
      unfolding listDirsRecursive_def by (rule listDirs_while_traced_2)
    with None show ?thesis by (simp add: listDirsRecursive_def)
  qed
next
  case (Some y)
  then have "listDirsRecursive os (fst W) d = Some y"
    unfolding listDirsRecursive_def by (rule listDirs_while_traced_1)
  with Some show ?thesis by simp
qed

subsection \<open>The journal of the nested loop\<close>




lemma nested_pending_processed:
  "processed (fst (nested_pending os pending st w)) = processed st \<union> set pending"
  by (induction pending arbitrary: st w) (auto simp: Let_def split: prod.splits sum.splits)







lemma nested_pending_append:
  "nested_pending os (xs @ ys) st w
     = (case nested_pending os xs st w of (s, v) \<Rightarrow> nested_pending os ys s v)"
proof (induction xs arbitrary: st w)
  case Nil
  then show ?case by simp
next
  case (Cons z xs)
  let ?d = "path_join [path_dirname z, path_basename_suffix z ''.zip'' @ ''_extracted'']"
  obtain r w1 where u: "unzipToDir os w z ?d = (r, w1)" by (cases "unzipToDir os w z ?d")
  show ?case
    using u Cons.IH by (cases r) (simp_all add: Let_def)
qed

lemma nested_pending_one:
  assumes "unzipToDir os w z
             (path_join [path_dirname z, path_basename_suffix z ''.zip'' @ ''_extracted''])
           = (r, w1)"
  shows "nestedZipCount (fst (nested_pending os [z] st w))
           = nestedZipCount st + (if isl r then 0 else 1)"
    and "nestedZipFailures (fst (nested_pending os [z] st w))
           = nestedZipFailures st + (if isl r then 1 else 0)"
  using assms by (cases r; simp add: Let_def)+

lemma nested_pending_total:
  "nestedZipCount (fst (nested_pending os pending st w))
     + nestedZipFailures (fst (nested_pending os pending st w))
     = nestedZipCount st + nestedZipFailures st + length pending
   \<and> nestedZipCount st \<le> nestedZipCount (fst (nested_pending os pending st w))
   \<and> nestedZipFailures st \<le> nestedZipFailures (fst (nested_pending os pending st w))"
proof (induction pending arbitrary: st w)
  case Nil
  then show ?case by simp
next
  case (Cons z pending)
  let ?d = "path_join [path_dirname z, path_basename_suffix z ''.zip'' @ ''_extracted'']"
  obtain r w1 where u: "unzipToDir os w z ?d = (r, w1)" by (cases "unzipToDir os w z ?d")
  show ?case
  proof (cases r)
    case (Inl e)
    let ?st = "st\<lparr>processed := insert z (processed st),
                    nestedZipFailures := Suc (nestedZipFailures st)\<rparr>"
    let ?w = "os_log os
                (os_log os w1 (''[zip:extract] nested zip skipped (failed to extract): '' @ z))
                (''[zip:extract] reason: '' @ errorText e)"
    from u Inl have "nested_pending os (z # pending) st w = nested_pending os pending ?st ?w"
      by (simp add: Let_def)
    with Cons.IH [of ?st ?w] show ?thesis by simp
  next
    case (Inr d)
    let ?st = "st\<lparr>processed := insert z (processed st),
                    nestedZipCount := Suc (nestedZipCount st)\<rparr>"
    let ?w = "os_log os w1 (''[zip:extract] nested zip extracted: '' @ z @ '' -> '' @ d)"
    from u Inr have "nested_pending os (z # pending) st w = nested_pending os pending ?st ?w"
      by (simp add: Let_def)
    with Cons.IH [of ?st ?w] show ?thesis by simp
  qed
qed

lemma nested_pending_counts:
  assumes "\<forall>z w. isl (fst (unzipToDir os w z
                     (path_join [path_dirname z, path_basename_suffix z ''.zip'' @ ''_extracted''])))
                 = (z \<in> failing)"
  shows "nestedZipCount (fst (nested_pending os pending st w))
           = nestedZipCount st + length (filter (\<lambda>z. z \<notin> failing) pending)
         \<and> nestedZipFailures (fst (nested_pending os pending st w))
           = nestedZipFailures st + length (filter (\<lambda>z. z \<in> failing) pending)"
proof (induction pending arbitrary: st w)
  case Nil
  then show ?case by simp
next
  case (Cons z pending)
  let ?d = "path_join [path_dirname z, path_basename_suffix z ''.zip'' @ ''_extracted'']"
  obtain r w1 where u: "unzipToDir os w z ?d = (r, w1)" by (cases "unzipToDir os w z ?d")
  from assms u have c: "isl r = (z \<in> failing)" by (metis fst_conv)
  show ?case
  proof (cases r)
    case (Inl e)
    with c have "z \<in> failing" by simp
    with u Inl Cons.IH show ?thesis by (simp add: Let_def)
  next
    case (Inr d)
    with c have "z \<notin> failing" by simp
    with u Inr Cons.IH show ?thesis by (simp add: Let_def)
  qed
qed

lemma makeDirectoriesWritable_error:
  "makeDirectoriesWritable os w d = Some (Inl e, w1) \<Longrightarrow>
     w1 = w \<and> listDirsRecursive os w d = Some (Inl e)"
  by (auto simp: makeDirectoriesWritable_def split: option.splits sum.splits prod.splits)

lemma nested_while_error:
  assumes "nested_while os root st w = Some y"
  shows "\<forall>e. fst y = Inl e \<longrightarrow>
           listDirsRecursive os (snd y) root = Some (Inl e)
           \<or> listFilesRecursive os (snd y) root = Some (Inl e)"
proof (induction os root st w y rule: nested_while.raw_induct)
  case (1 f os root st w y)
  note IH = 1(1) and body = 1(2)
  from body obtain r1 w1 where m: "makeDirectoriesWritable os w root = Some (r1, w1)"
    by (cases "makeDirectoriesWritable os w root") auto
  show ?case
  proof (cases r1)
    case (Inl e)
    with body m have "y = (Inl e, w1)" by simp
    with makeDirectoriesWritable_error [of os w root e w1] m Inl show ?thesis by simp
  next
    case (Inr updated)
    from body m Inr obtain l where l: "listFilesRecursive os w1 root = Some l"
      by (cases "listFilesRecursive os w1 root") auto
    show ?thesis
    proof (cases l)
      case (Inl e)
      with body m Inr l have "y = (Inl e, w1)" by simp
      with l Inl show ?thesis by simp
    next
      case files: (Inr files)
      let ?pending = "filter (\<lambda>zipPath. zipPath \<notin> processed st) (filter isRealZipPath files)"
      show ?thesis
      proof (cases "?pending = []")
        case True
        with body m Inr l files have "y = (Inr st, w1)" by (simp add: Let_def)
        then show ?thesis by simp
      next
        case False
        obtain st1 w2 where n: "nested_pending os ?pending st w1 = (st1, w2)"
          by (cases "nested_pending os ?pending st w1")
        with body m Inr l files False have "f os root st1 w2 = Some y"
          by (simp add: Let_def)
        from IH [OF this] show ?thesis .
      qed
    qed
  qed
qed fact

lemma nested_while_totals:
  assumes run: "nested_while os root st w = Some y"
    and scan: "\<forall>w files. listFilesRecursive os w root = Some (Inr files) \<longrightarrow> distinct files"
    and inv: "finite (processed st)"
      "nestedZipCount st + nestedZipFailures st = card (processed st) + k"
  shows "\<forall>st'. fst y = Inr st' \<longrightarrow>
           finite (processed st') \<and> processed st \<subseteq> processed st'
           \<and> nestedZipCount st' + nestedZipFailures st' = card (processed st') + k
           \<and> nestedZipCount st \<le> nestedZipCount st'
           \<and> nestedZipFailures st \<le> nestedZipFailures st'
           \<and> (\<forall>files. listFilesRecursive os (snd y) root = Some (Inr files) \<longrightarrow>
                 {z \<in> set files. isRealZipPath z} \<subseteq> processed st')"
  using scan inv
proof (induction os root st w y rule: nested_while.raw_induct)
  case (1 f os root st w y)
  note IH = 1(1) and body = 1(2) and scan = 1(3) and inv = 1(4,5)
  from body obtain r1 w1 where m: "makeDirectoriesWritable os w root = Some (r1, w1)"
    by (cases "makeDirectoriesWritable os w root") auto
  show ?case
  proof (cases r1)
    case (Inl e)
    with body m have "y = (Inl e, w1)" by simp
    then show ?thesis by simp
  next
    case (Inr updated)
    from body m Inr obtain l where l: "listFilesRecursive os w1 root = Some l"
      by (cases "listFilesRecursive os w1 root") auto
    show ?thesis
    proof (cases l)
      case (Inl e)
      with body m Inr l have "y = (Inl e, w1)" by simp
      then show ?thesis by simp
    next
      case files: (Inr files)
      with scan l have d: "distinct files" by blast
      let ?pending = "filter (\<lambda>zipPath. zipPath \<notin> processed st) (filter isRealZipPath files)"
      have dp: "distinct ?pending" using d by simp
      have disj: "set ?pending \<inter> processed st = {}" by auto
      show ?thesis
      proof (cases "?pending = []")
        case True
        with body m Inr l files have y: "y = (Inr st, w1)" by (simp add: Let_def)
        from True have "{z \<in> set files. isRealZipPath z} \<subseteq> processed st"
          by (auto simp: filter_empty_conv)
        with y inv l files show ?thesis by simp
      next
        case False
        obtain st1 w2 where n: "nested_pending os ?pending st w1 = (st1, w2)"
          by (cases "nested_pending os ?pending st w1")
        with body m Inr l files False have rec: "f os root st1 w2 = Some y"
          by (simp add: Let_def)
        from nested_pending_processed [of os ?pending st w1] n
        have p1: "processed st1 = processed st \<union> set ?pending" by simp
        from nested_pending_total [of os ?pending st w1] n
        have t1: "nestedZipCount st1 + nestedZipFailures st1
                    = nestedZipCount st + nestedZipFailures st + length ?pending"
          and c1: "nestedZipCount st \<le> nestedZipCount st1"
          and f1: "nestedZipFailures st \<le> nestedZipFailures st1"
          by simp_all
        have fin: "finite (processed st1)" using p1 inv(1) by simp
        have "card (processed st1) = card (processed st) + card (set ?pending)"
          unfolding p1 using inv(1) disj by (intro card_Un_disjoint) auto
        also have "card (set ?pending) = length ?pending" using dp by (rule distinct_card)
        finally have "nestedZipCount st1 + nestedZipFailures st1 = card (processed st1) + k"
          using t1 inv(2) by simp
        from IH [OF rec scan fin this] p1 c1 f1 show ?thesis by auto
      qed
    qed
  qed
qed fact

lemma nested_while_counts:
  assumes run: "nested_while os root st w = Some y"
    and failing: "\<forall>z w. isl (fst (unzipToDir os w z
                     (path_join [path_dirname z, path_basename_suffix z ''.zip'' @ ''_extracted''])))
                 = (z \<in> failing)"
    and scan: "\<forall>w files. listFilesRecursive os w root = Some (Inr files) \<longrightarrow> distinct files"
    and inv: "finite (processed st)" "nestedZipCount st = card (processed st - failing)"
      "nestedZipFailures st = card (processed st \<inter> failing)"
  shows "\<forall>st'. fst y = Inr st' \<longrightarrow>
           nestedZipCount st' = card (processed st' - failing)
           \<and> nestedZipFailures st' = card (processed st' \<inter> failing)"
  using failing scan inv
proof (induction os root st w y rule: nested_while.raw_induct)
  case (1 f os root st w y)
  note IH = 1(1) and body = 1(2) and failing = 1(3) and scan = 1(4) and inv = 1(5,6,7)
  from body obtain r1 w1 where m: "makeDirectoriesWritable os w root = Some (r1, w1)"
    by (cases "makeDirectoriesWritable os w root") auto
  show ?case
  proof (cases r1)
    case (Inl e)
    with body m have "y = (Inl e, w1)" by simp
    then show ?thesis by simp
  next
    case (Inr updated)
    from body m Inr obtain l where l: "listFilesRecursive os w1 root = Some l"
      by (cases "listFilesRecursive os w1 root") auto
    show ?thesis
    proof (cases l)
      case (Inl e)
      with body m Inr l have "y = (Inl e, w1)" by simp
      then show ?thesis by simp
    next
      case files: (Inr files)
      with scan l have d: "distinct files" by blast
      let ?pending = "filter (\<lambda>zipPath. zipPath \<notin> processed st) (filter isRealZipPath files)"
      have dp: "distinct ?pending" using d by simp
      have disj: "set ?pending \<inter> processed st = {}" by auto
      show ?thesis
      proof (cases "?pending = []")
        case True
        with body m Inr l files have y: "y = (Inr st, w1)" by (simp add: Let_def)
        with inv show ?thesis by simp
      next
        case False
        obtain st1 w2 where n: "nested_pending os ?pending st w1 = (st1, w2)"
          by (cases "nested_pending os ?pending st w1")
        with body m Inr l files False have rec: "f os root st1 w2 = Some y"
          by (simp add: Let_def)
        from nested_pending_processed [of os ?pending st w1] n
        have p1: "processed st1 = processed st \<union> set ?pending" by simp
        from nested_pending_counts [OF failing, of ?pending st w1] n
        have c1: "nestedZipCount st1 = nestedZipCount st + length (filter (\<lambda>z. z \<notin> failing) ?pending)"
          and f1: "nestedZipFailures st1 = nestedZipFailures st + length (filter (\<lambda>z. z \<in> failing) ?pending)"
          by simp_all
        have fin: "finite (processed st1)" using p1 inv(1) by simp
        have l1: "length (filter (\<lambda>z. z \<notin> failing) ?pending) = card (set ?pending - failing)"
        proof -
          have "{z. z \<notin> failing} \<inter> set ?pending = set ?pending - failing" by auto
          with distinct_length_filter [OF dp, of "\<lambda>z. z \<notin> failing"] show ?thesis by simp
        qed
        have l2: "length (filter (\<lambda>z. z \<in> failing) ?pending) = card (set ?pending \<inter> failing)"
        proof -
          have "{z. z \<in> failing} \<inter> set ?pending = set ?pending \<inter> failing" by auto
          with distinct_length_filter [OF dp, of "\<lambda>z. z \<in> failing"] show ?thesis by simp
        qed
        have u1: "processed st1 - failing = (processed st - failing) \<union> (set ?pending - failing)"
          using p1 by auto
        have u2: "processed st1 \<inter> failing = (processed st \<inter> failing) \<union> (set ?pending \<inter> failing)"
          using p1 by auto
        have "card (processed st1 - failing)
                = card (processed st - failing) + card (set ?pending - failing)"
          unfolding u1 using inv(1) disj by (intro card_Un_disjoint) auto
        with c1 l1 inv(2) have i2: "nestedZipCount st1 = card (processed st1 - failing)" by simp
        have "card (processed st1 \<inter> failing)
                = card (processed st \<inter> failing) + card (set ?pending \<inter> failing)"
          unfolding u2 using inv(1) disj by (intro card_Un_disjoint) auto
        with f1 l2 inv(3) have i3: "nestedZipFailures st1 = card (processed st1 \<inter> failing)" by simp
        from IH [OF rec failing scan fin i2 i3] show ?thesis .
      qed
    qed
  qed
qed fact

text \<open>
  C7 (as amended). In a pass over the pending zips, every extraction that fails adds one
  to the failure counter and nothing to the success counter, and every extraction that
  returns adds one to the success counter and nothing to the failure counter, whatever
  made it fail (an archive that neither tool can read, or an output directory that
  cannot be prepared); the pass goes on with the zips after it, no counter ever
  decreases, and every pending zip is counted once. An error that ends the loop is an
  error of a directory scan, never one of an extraction. When the loop ends without
  such an error, on a machine with proper listings, every processed zip has been
  counted once, as a success or as a failure, and no real zip of the final tree is left
  out; when the failure of an extraction does not depend on the moment it is made, the
  failure counter is the number of processed zips whose extraction fails. The exit code
  does not depend on the counters: once the loop has returned them, \<^verbatim>\<open>main\<close> ends
  with exit code 0 exactly when the clean-up and the two final listings return without
  an error, and then its summary shows the counters; when the clean-up fails, \<^verbatim>\<open>main\<close>
  ends with exit code 1.
\<close>

theorem C7_failures_counted_exit_by_cleanup:
  "(nested_pending os before st w = (sx, wx)
      \<and> unzipToDir os wx z
          (path_join [path_dirname z, path_basename_suffix z ''.zip'' @ ''_extracted''])
        = (r, wz)
      \<and> nested_pending os (before @ [z]) st w = (sz, wy)
      \<and> nested_pending os (before @ z # rest) st w = (s1, w1) \<longrightarrow>
      nestedZipFailures sz = nestedZipFailures sx + (if isl r then 1 else 0)
      \<and> nestedZipCount sz = nestedZipCount sx + (if isl r then 0 else 1)
      \<and> nested_pending os rest sz wy = (s1, w1)
      \<and> nestedZipCount sz \<le> nestedZipCount s1 \<and> nestedZipFailures sz \<le> nestedZipFailures s1
      \<and> nestedZipCount s1 + nestedZipFailures s1
          = nestedZipCount st + nestedZipFailures st + length (before @ z # rest)
      \<and> processed s1 = processed st \<union> set (before @ z # rest))
   \<and> (nested_while os rootDir st w = Some (Inl e, w2) \<longrightarrow>
        listDirsRecursive os w2 rootDir = Some (Inl e)
        \<or> listFilesRecursive os w2 rootDir = Some (Inl e))
   \<and> (proper_listings os \<and> rootDir = root_path segs \<and> (\<forall>s\<in>set segs. segment s)
        \<and> nested_while os rootDir \<lparr>processed = {}, nestedZipCount = 0, nestedZipFailures = 0\<rparr> w
            = Some (Inr st3, w3) \<longrightarrow>
        finite (processed st3)
        \<and> nestedZipCount st3 + nestedZipFailures st3 = card (processed st3)
        \<and> extractNestedZips os w rootDir
            = Some (Inr (nestedZipCount st3, nestedZipFailures st3), w3)
        \<and> (\<forall>files. listFilesRecursive os w3 rootDir = Some (Inr files) \<longrightarrow>
              {z \<in> set files. isRealZipPath z} \<subseteq> processed st3)
        \<and> ((\<forall>z w. isl (fst (unzipToDir os w z
                      (path_join [path_dirname z, path_basename_suffix z ''.zip'' @ ''_extracted''])))
                  = (z \<in> failing)) \<longrightarrow>
             nestedZipCount st3 = card (processed st3 - failing)
             \<and> nestedZipFailures st3 = card (processed st3 \<inter> failing)))
   \<and> (resolveZipFromArgs os u zipArg = Some (Inr zipPath, u1)
        \<and> toLowerCase (path_extname zipPath) = ''.zip''
        \<and> unzipToDir os
             (os_logs os u1
                [''[zip:extract] source zip: '' @ zipPath,
                 ''[zip:extract] requested output dir: ''
                   @ path_resolve (os_cwd os)
                       [case outputArg of
                          None \<Rightarrow> path_join [path_dirname zipPath,
                                    path_basename_suffix zipPath ''.zip'' @ ''_extracted'']
                        | Some given \<Rightarrow> given]])
             zipPath
             (path_resolve (os_cwd os)
                [case outputArg of
                   None \<Rightarrow> path_join [path_dirname zipPath,
                             path_basename_suffix zipPath ''.zip'' @ ''_extracted'']
                 | Some given \<Rightarrow> given])
           = (Inr rootDir, v0)
        \<and> makeDirectoriesWritable os
             (os_logs os v0 [''[zip:extract] output dir: '' @ rootDir,
                             ''[zip:extract] root zip extracted.'']) rootDir
           = Some (Inr updated, v3)
        \<and> extractNestedZips os
             (os_log os v3 (''[zip:extract] writable directory normalization: ''
                  @ show_nat updated @ '' dirs updated'')) rootDir
           = Some (Inr (nestedCount, nestedFailures), v)
        \<longrightarrow>
        ((\<exists>out u2. main os u zipArg outputArg = Some (out, u2) \<and> exit_code out = 0)
           = (\<exists>removedFiles removedDirs v1 allFiles allDirs.
                cleanupMacArtifacts os v rootDir = Some (Inr (removedFiles, removedDirs), v1)
                \<and> listFilesRecursive os v1 rootDir = Some (Inr allFiles)
                \<and> listDirsRecursive os v1 rootDir = Some (Inr allDirs)))
        \<and> (cleanupMacArtifacts os v rootDir = Some (Inr (removedFiles, removedDirs), v1)
            \<and> listFilesRecursive os v1 rootDir = Some (Inr allFiles)
            \<and> listDirsRecursive os v1 rootDir = Some (Inr allDirs) \<longrightarrow>
             main os u zipArg outputArg
               = Some (Completed,
                       os_logs os v1 (summary nestedCount nestedFailures removedFiles
                                        removedDirs allFiles allDirs))
             \<and> exit_code Completed = 0)
        \<and> (cleanupMacArtifacts os v rootDir = Some (Inl e, v1) \<longrightarrow>
             map_option (\<lambda>y. exit_code (fst y)) (main os u zipArg outputArg) = Some 1))"
proof -
  let ?dest = "\<lambda>z. path_join [path_dirname z, path_basename_suffix z ''.zip'' @ ''_extracted'']"
  have 1: "nestedZipFailures sz = nestedZipFailures sx + (if isl r then 1 else 0)
      \<and> nestedZipCount sz = nestedZipCount sx + (if isl r then 0 else 1)
      \<and> nested_pending os rest sz wy = (s1, w1)
      \<and> nestedZipCount sz \<le> nestedZipCount s1 \<and> nestedZipFailures sz \<le> nestedZipFailures s1
      \<and> nestedZipCount s1 + nestedZipFailures s1
          = nestedZipCount st + nestedZipFailures st + length (before @ z # rest)
      \<and> processed s1 = processed st \<union> set (before @ z # rest)"
    if a: "nested_pending os before st w = (sx, wx)"
      and u: "unzipToDir os wx z (?dest z) = (r, wz)"
      and b: "nested_pending os (before @ [z]) st w = (sz, wy)"
      and c: "nested_pending os (before @ z # rest) st w = (s1, w1)"
  proof -
    from nested_pending_append [of os before "[z]" st w] a b
    have o: "nested_pending os [z] sx wx = (sz, wy)" by simp
    from nested_pending_one [OF u, of sx] o
    have x: "nestedZipCount sz = nestedZipCount sx + (if isl r then 0 else 1)"
      "nestedZipFailures sz = nestedZipFailures sx + (if isl r then 1 else 0)"
      by simp_all
    from nested_pending_append [of os "before @ [z]" rest st w] b c
    have y: "nested_pending os rest sz wy = (s1, w1)" by simp
    from nested_pending_total [of os rest sz wy] y
    have m: "nestedZipCount sz \<le> nestedZipCount s1" "nestedZipFailures sz \<le> nestedZipFailures s1"
      by simp_all
    from nested_pending_total [of os "before @ z # rest" st w] c
    have t: "nestedZipCount s1 + nestedZipFailures s1
          = nestedZipCount st + nestedZipFailures st + length (before @ z # rest)"
      by simp
    from nested_pending_processed [of os "before @ z # rest" st w] c
    have p: "processed s1 = processed st \<union> set (before @ z # rest)" by simp
    from x y m t p show ?thesis by blast
  qed
  have 2: "listDirsRecursive os w2 rootDir = Some (Inl e)
        \<or> listFilesRecursive os w2 rootDir = Some (Inl e)"
    if "nested_while os rootDir st w = Some (Inl e, w2)"
    using nested_while_error [OF that] by simp
  let ?st0 = "\<lparr>processed = {}, nestedZipCount = 0, nestedZipFailures = 0\<rparr>"
  have 3: "finite (processed st3)
        \<and> nestedZipCount st3 + nestedZipFailures st3 = card (processed st3)
        \<and> extractNestedZips os w rootDir
            = Some (Inr (nestedZipCount st3, nestedZipFailures st3), w3)
        \<and> (\<forall>files. listFilesRecursive os w3 rootDir = Some (Inr files) \<longrightarrow>
              {z \<in> set files. isRealZipPath z} \<subseteq> processed st3)
        \<and> ((\<forall>z w. isl (fst (unzipToDir os w z (?dest z))) = (z \<in> failing)) \<longrightarrow>
             nestedZipCount st3 = card (processed st3 - failing)
             \<and> nestedZipFailures st3 = card (processed st3 \<inter> failing))"
    if h: "proper_listings os" "rootDir = root_path segs" "\<forall>s\<in>set segs. segment s"
      and run: "nested_while os rootDir ?st0 w = Some (Inr st3, w3)"
  proof -
    from h listFilesRecursive_distinct [of os segs]
    have scan: "\<forall>w files. listFilesRecursive os w rootDir = Some (Inr files) \<longrightarrow> distinct files"
      by blast
    from nested_while_totals [OF run scan, of 0]
    have a: "finite (processed st3)"
      "nestedZipCount st3 + nestedZipFailures st3 = card (processed st3)"
      "\<forall>files. listFilesRecursive os w3 rootDir = Some (Inr files) \<longrightarrow>
              {z \<in> set files. isRealZipPath z} \<subseteq> processed st3"
      by simp_all
    from run have b: "extractNestedZips os w rootDir
            = Some (Inr (nestedZipCount st3, nestedZipFailures st3), w3)"
      by (simp add: extractNestedZips_def)
    have c: "nestedZipCount st3 = card (processed st3 - failing)
             \<and> nestedZipFailures st3 = card (processed st3 \<inter> failing)"
      if "\<forall>z w. isl (fst (unzipToDir os w z (?dest z))) = (z \<in> failing)"
      using nested_while_counts [OF run that scan] by simp
    from a b c show ?thesis by blast
  qed
  have 4: "((\<exists>out u2. main os u zipArg outputArg = Some (out, u2) \<and> exit_code out = 0)
           = (\<exists>removedFiles removedDirs v1 allFiles allDirs.
                cleanupMacArtifacts os v rootDir = Some (Inr (removedFiles, removedDirs), v1)
                \<and> listFilesRecursive os v1 rootDir = Some (Inr allFiles)
                \<and> listDirsRecursive os v1 rootDir = Some (Inr allDirs)))
        \<and> (cleanupMacArtifacts os v rootDir = Some (Inr (removedFiles, removedDirs), v1)
            \<and> listFilesRecursive os v1 rootDir = Some (Inr allFiles)
            \<and> listDirsRecursive os v1 rootDir = Some (Inr allDirs) \<longrightarrow>
             main os u zipArg outputArg
               = Some (Completed,
                       os_logs os v1 (summary nestedCount nestedFailures removedFiles
                                        removedDirs allFiles allDirs))
             \<and> exit_code Completed = 0)
        \<and> (cleanupMacArtifacts os v rootDir = Some (Inl e, v1) \<longrightarrow>
             map_option (\<lambda>y. exit_code (fst y)) (main os u zipArg outputArg) = Some 1)"
    if r: "resolveZipFromArgs os u zipArg = Some (Inr zipPath, u1)"
      "toLowerCase (path_extname zipPath) = ''.zip''"
      "unzipToDir os
             (os_logs os u1
                [''[zip:extract] source zip: '' @ zipPath,
                 ''[zip:extract] requested output dir: ''
                   @ path_resolve (os_cwd os)
                       [case outputArg of
                          None \<Rightarrow> path_join [path_dirname zipPath,
                                    path_basename_suffix zipPath ''.zip'' @ ''_extracted'']
                        | Some given \<Rightarrow> given]])
             zipPath
             (path_resolve (os_cwd os)
                [case outputArg of
                   None \<Rightarrow> path_join [path_dirname zipPath,
                             path_basename_suffix zipPath ''.zip'' @ ''_extracted'']
                 | Some given \<Rightarrow> given])
           = (Inr rootDir, v0)"
      and a: "makeDirectoriesWritable os
             (os_logs os v0 [''[zip:extract] output dir: '' @ rootDir,
                             ''[zip:extract] root zip extracted.'']) rootDir
           = Some (Inr updated, v3)"
        "extractNestedZips os
             (os_log os v3 (''[zip:extract] writable directory normalization: ''
                  @ show_nat updated @ '' dirs updated'')) rootDir
           = Some (Inr (nestedCount, nestedFailures), v)"
  proof -
    have m: "main os u zipArg outputArg = main_extracted os v0 rootDir"
      using r by (rule main_root_extracted)
    have x: "(\<exists>out u2. main_extracted os v0 rootDir = Some (out, u2) \<and> exit_code out = 0)
           = (\<exists>removedFiles removedDirs v1 allFiles allDirs.
                cleanupMacArtifacts os v rootDir = Some (Inr (removedFiles, removedDirs), v1)
                \<and> listFilesRecursive os v1 rootDir = Some (Inr allFiles)
                \<and> listDirsRecursive os v1 rootDir = Some (Inr allDirs))"
      using a
      by (auto simp: main_extracted_def Let_def main_catch_def
          split: option.splits sum.splits prod.splits)
    have y: "main_extracted os v0 rootDir
               = Some (Completed,
                       os_logs os v1 (summary nestedCount nestedFailures removedFiles
                                        removedDirs allFiles allDirs))"
      if "cleanupMacArtifacts os v rootDir = Some (Inr (removedFiles, removedDirs), v1)"
        "listFilesRecursive os v1 rootDir = Some (Inr allFiles)"
        "listDirsRecursive os v1 rootDir = Some (Inr allDirs)"
      using a that by (simp add: main_extracted_def Let_def)
    have z: "map_option (\<lambda>y. exit_code (fst y)) (main_extracted os v0 rootDir) = Some 1"
      if "cleanupMacArtifacts os v rootDir = Some (Inl e, v1)"
      using a that by (simp add: main_extracted_def Let_def main_catch_def)
    from x y z show ?thesis unfolding m by simp
  qed
  from 1 2 3 4 show ?thesis by blast
qed

theorem C7_failures_counted_exit_by_cleanup_witness:
  "nestedZipFailures (fst (nested_pending
       (fixed_os (refusing [] [''/home/u/upload/pack_extracted/a_extracted'',
                               ''/home/u/upload/pack_extracted/a_extracted_7'']))
       [''/home/u/upload/pack_extracted/a.zip'', ''/home/u/upload/pack_extracted/bad.zip'']
       \<lparr>processed = {}, nestedZipCount = 0, nestedZipFailures = 0\<rparr> ())) = 2
   \<and> nestedZipCount (fst (nested_pending
       (fixed_os (refusing [] [''/home/u/upload/pack_extracted/a_extracted'',
                               ''/home/u/upload/pack_extracted/a_extracted_7'']))
       [''/home/u/upload/pack_extracted/a.zip'', ''/home/u/upload/pack_extracted/bad.zip'',
        ''/home/u/upload/pack_extracted/b.zip'']
       \<lparr>processed = {}, nestedZipCount = 0, nestedZipFailures = 0\<rparr> ())) = 1
   \<and> extractNestedZips
       (fixed_os (refusing [] [''/home/u/upload/pack_extracted/a_extracted'',
                               ''/home/u/upload/pack_extracted/a_extracted_7'']))
       () ''/home/u/upload/pack_extracted'' = Some (Inr (1, 2), ())
   \<and> main (fixed_os (refusing [] [''/home/u/upload/pack_extracted/a_extracted'',
                                  ''/home/u/upload/pack_extracted/a_extracted_7'']))
       () None None = Some (Completed, ())
   \<and> extractNestedZips (fixed_os upload_sc) () ''/home/u/upload/pack_extracted''
       = Some (Inr (2, 1), ())
   \<and> main (fixed_os upload_sc) () None None = Some (Completed, ())
   \<and> exit_code Completed = 0"
proof -
  let ?os = "fixed_os (refusing [] [''/home/u/upload/pack_extracted/a_extracted'',
                                   ''/home/u/upload/pack_extracted/a_extracted_7''])"
  let ?root = "''/home/u/upload/pack_extracted''"
  let ?zip = "''/home/u/upload/pack.zip''"
  let ?a = "''/home/u/upload/pack_extracted/a.zip''"
  let ?bad = "''/home/u/upload/pack_extracted/bad.zip''"
  let ?b = "''/home/u/upload/pack_extracted/b.zip''"
  let ?st0 = "\<lparr>processed = {}, nestedZipCount = 0, nestedZipFailures = 0\<rparr>"
  let ?dest = "\<lambda>z. path_join [path_dirname z, path_basename_suffix z ''.zip'' @ ''_extracted'']"
  let ?files = "[''/home/u/upload/pack_extracted/a.zip'', ''/home/u/upload/pack_extracted/bad.zip'',
         ''/home/u/upload/pack_extracted/b.zip'', ''/home/u/upload/pack_extracted/.DS_Store'',
         ''/home/u/upload/pack_extracted/__MACOSX/._a.zip'']"
  let ?dirs = "[''/home/u/upload/pack_extracted/__MACOSX'']"

  txt \<open>
    The first zip fails because its output directory cannot be prepared, the second
    because it is corrupt; the third is extracted.
  \<close>
  obtain sx wx where px: "nested_pending ?os [?a] ?st0 () = (sx, wx)"
    by (cases "nested_pending ?os [?a] ?st0 ()")
  have "nestedZipFailures (fst (nested_pending ?os [?a] ?st0 ())) = 1"
    "nestedZipCount (fst (nested_pending ?os [?a] ?st0 ())) = 0"
    by code_simp+
  with px have fx: "nestedZipFailures sx = 1" "nestedZipCount sx = 0" by simp_all
  obtain r wz where u: "unzipToDir ?os wx ?bad (?dest ?bad) = (r, wz)"
    by (cases "unzipToDir ?os wx ?bad (?dest ?bad)")
  have "isl (fst (unzipToDir ?os () ?bad (?dest ?bad)))" by code_simp
  with u have ir: "isl r" by simp
  obtain sz wy where pz: "nested_pending ?os ([?a] @ [?bad]) ?st0 () = (sz, wy)"
    by (cases "nested_pending ?os ([?a] @ [?bad]) ?st0 ()")
  obtain s1 w1 where p1: "nested_pending ?os ([?a] @ ?bad # [?b]) ?st0 () = (s1, w1)"
    by (cases "nested_pending ?os ([?a] @ ?bad # [?b]) ?st0 ()")
  note t1 = C7_failures_counted_exit_by_cleanup [THEN conjunct1, THEN mp,
      OF conjI [OF px conjI [OF u conjI [OF pz p1]]]]
  from t1 fx ir have fz: "nestedZipFailures sz = 2" "nestedZipCount sz = 0" by simp_all
  from t1 fz have "nestedZipCount s1 + nestedZipFailures s1 = 3" "2 \<le> nestedZipFailures s1"
    by simp_all
  moreover have "nestedZipCount (fst (nested_pending ?os [?b] sz wy)) \<noteq> 0"
  proof -
    have nb: "\<not> isl (fst (unzipToDir ?os () ?b (?dest ?b)))" by code_simp
    obtain rb wb where ub: "unzipToDir ?os wy ?b (?dest ?b) = (rb, wb)"
      by (cases "unzipToDir ?os wy ?b (?dest ?b)")
    with nb have "\<not> isl rb" by simp
    then obtain d where "rb = Inr d" by (cases rb) auto
    with ub show ?thesis by (simp add: Let_def)
  qed
  moreover from t1 have "nested_pending ?os [?b] sz wy = (s1, w1)" by simp
  ultimately have f1: "nestedZipCount s1 = 1" by simp
  from pz fz have a1: "nestedZipFailures (fst (nested_pending ?os [?a, ?bad] ?st0 ())) = 2"
    by simp
  from p1 f1 have a2: "nestedZipCount (fst (nested_pending ?os [?a, ?bad, ?b] ?st0 ())) = 1"
    by simp

  txt \<open>The whole run.\<close>
  have rz: "resolveZipFromArgs ?os () None = Some (Inr ?zip, ())" by code_simp
  have ez: "toLowerCase (path_extname ?zip) = ''.zip''" by code_simp
  have uz: "unzipToDir ?os
                 (os_logs ?os ()
                    [''[zip:extract] source zip: '' @ ?zip,
                     ''[zip:extract] requested output dir: ''
                       @ path_resolve (os_cwd ?os)
                           [case None of
                              None \<Rightarrow> path_join [path_dirname ?zip,
                                        path_basename_suffix ?zip ''.zip'' @ ''_extracted'']
                            | Some given \<Rightarrow> given]])
                 ?zip
                 (path_resolve (os_cwd ?os)
                    [case None of
                       None \<Rightarrow> path_join [path_dirname ?zip,
                                 path_basename_suffix ?zip ''.zip'' @ ''_extracted'']
                     | Some given \<Rightarrow> given])
               = (Inr ?root, ())"
    by code_simp
  have mz: "makeDirectoriesWritable ?os
              (os_logs ?os () [''[zip:extract] output dir: '' @ ?root,
                               ''[zip:extract] root zip extracted.'']) ?root
              = Some (Inr 2, ())" by code_simp
  have nz: "extractNestedZips ?os
                 (os_log ?os () (''[zip:extract] writable directory normalization: ''
                      @ show_nat 2 @ '' dirs updated'')) ?root
              = Some (Inr (1, 2), ())" by code_simp
  have kz: "cleanupMacArtifacts ?os () ?root = Some (Inr (2, 1), ())" by code_simp
  have lz: "listFilesRecursive ?os () ?root = Some (Inr ?files)" by code_simp
  have dz: "listDirsRecursive ?os () ?root = Some (Inr ?dirs)" by code_simp
  from C7_failures_counted_exit_by_cleanup [THEN conjunct2, THEN conjunct2, THEN conjunct2,
      THEN mp, OF conjI [OF rz conjI [OF ez conjI [OF uz conjI [OF mz nz]]]],
      THEN conjunct2, THEN conjunct1, THEN mp, OF conjI [OF kz conjI [OF lz dz]]]
  have "main ?os () None None
          = Some (Completed, os_logs ?os () (summary 1 2 2 1 ?files ?dirs))"
    and c0: "exit_code Completed = 0"
    by blast+
  then have g: "main ?os () None None = Some (Completed, ())" by simp
  have x: "extractNestedZips ?os () ?root = Some (Inr (1, 2), ())" by code_simp

  txt \<open>One corrupt and two sound nested zips, on a machine that refuses nothing.\<close>
  let ?ok = "fixed_os upload_sc"
  have r2: "resolveZipFromArgs ?ok () None = Some (Inr ?zip, ())" by code_simp
  have u2: "unzipToDir ?ok
                 (os_logs ?ok ()
                    [''[zip:extract] source zip: '' @ ?zip,
                     ''[zip:extract] requested output dir: ''
                       @ path_resolve (os_cwd ?ok)
                           [case None of
                              None \<Rightarrow> path_join [path_dirname ?zip,
                                        path_basename_suffix ?zip ''.zip'' @ ''_extracted'']
                            | Some given \<Rightarrow> given]])
                 ?zip
                 (path_resolve (os_cwd ?ok)
                    [case None of
                       None \<Rightarrow> path_join [path_dirname ?zip,
                                 path_basename_suffix ?zip ''.zip'' @ ''_extracted'']
                     | Some given \<Rightarrow> given])
               = (Inr ?root, ())"
    by code_simp
  have m2: "makeDirectoriesWritable ?ok
              (os_logs ?ok () [''[zip:extract] output dir: '' @ ?root,
                               ''[zip:extract] root zip extracted.'']) ?root
              = Some (Inr 2, ())" by code_simp
  have n2: "extractNestedZips ?ok
                 (os_log ?ok () (''[zip:extract] writable directory normalization: ''
                      @ show_nat 2 @ '' dirs updated'')) ?root
              = Some (Inr (2, 1), ())" by code_simp
  have k2: "cleanupMacArtifacts ?ok () ?root = Some (Inr (2, 1), ())" by code_simp
  have l2: "listFilesRecursive ?ok () ?root = Some (Inr ?files)" by code_simp
  have d2: "listDirsRecursive ?ok () ?root = Some (Inr ?dirs)" by code_simp
  from C7_failures_counted_exit_by_cleanup [THEN conjunct2, THEN conjunct2, THEN conjunct2,
      THEN mp, OF conjI [OF r2 conjI [OF ez conjI [OF u2 conjI [OF m2 n2]]]],
      THEN conjunct2, THEN conjunct1, THEN mp, OF conjI [OF k2 conjI [OF l2 d2]]]
  have "main ?ok () None None
          = Some (Completed, os_logs ?ok () (summary 2 1 2 1 ?files ?dirs))"
    by blast
  then have g2: "main ?ok () None None = Some (Completed, ())" by simp
  have x2: "extractNestedZips ?ok () ?root = Some (Inr (2, 1), ())" by code_simp
  from a1 a2 x g x2 g2 c0 show ?thesis by (intro conjI)
qed

theorem C7_exit_code_counterexample:
  "extractNestedZips
       (fixed_os (refusing [''/home/u/upload/pack_extracted/__MACOSX/._a.zip''] []))
       () ''/home/u/upload/pack_extracted'' = Some (Inr (2, 1), ())
   \<and> map_option fst
        (main (fixed_os (refusing [''/home/u/upload/pack_extracted/__MACOSX/._a.zip''] []))
           () None None)
     = Some (Failed (Error ''EACCES: /home/u/upload/pack_extracted/__MACOSX/._a.zip''))
   \<and> exit_code (Failed (Error ''EACCES: /home/u/upload/pack_extracted/__MACOSX/._a.zip'')) = 1"
  by code_simp

subsection \<open>Walks and loops that return\<close>

lemma listDirs_entries_result:
  assumes "\<forall>s\<in>set cur. segment s" "\<forall>e\<in>set entries. segment (d_name e)"
  shows "listDirs_entries (root_path cur) entries stack out
           = (rev (map (\<lambda>e. abs_path (cur @ [d_name e])) (filter (\<lambda>e. d_kind e = Directory) entries))
                @ stack,
              out @ map (\<lambda>e. abs_path (cur @ [d_name e])) (filter (\<lambda>e. d_kind e = Directory) entries))"
  using assms(2)
proof (induction entries arbitrary: stack out)
  case Nil
  then show ?case by simp
next
  case (Cons e entries)
  then have j: "path_join [root_path cur, d_name e] = abs_path (cur @ [d_name e])"
    using path_join_root_path [OF assms(1), of "d_name e"] by simp
  from Cons have r: "\<forall>e\<in>set entries. segment (d_name e)" by simp
  show ?case
    using Cons.IH [OF r] j by (cases "d_kind e") (simp_all add: Let_def)
qed

lemma pop_push_smaller:
  assumes "\<forall>c\<in>set children. h c < (h current :: nat)"
  shows "mset (map h (rev children @ rest)) < mset (map h (current # rest))"
proof -
  have "multp (<) (mset (map h rest) + mset (map h children)) (mset (map h rest) + {#h current#})"
    using assms by (intro one_step_implies_multp) auto
  then show ?thesis by (simp add: less_multiset_def ac_simps)
qed

lemma length_root_path_child:
  assumes "segment name"
  shows "length (root_path cur) < length (root_path (cur @ [name]))"
    and "length (abs_path (cur @ [name])) \<le> length (root_path cur) + length name + 1"
    and "root_path (cur @ [name]) = abs_path (cur @ [name])"
proof -
  from assms have n: "name \<noteq> []" by (simp add: segment_def)
  show "root_path (cur @ [name]) = abs_path (cur @ [name])" by (simp add: root_path_def)
  show "length (root_path cur) < length (root_path (cur @ [name]))"
    using n by (cases name) (simp_all add: root_path_def)
  show "length (abs_path (cur @ [name])) \<le> length (root_path cur) + length name + 1"
    by (simp add: root_path_def)
qed

lemma children_smaller:
  assumes limit: "length (root_path cur) \<le> L"
    and names: "\<forall>e\<in>set entries. segment (d_name e)"
    and C: "C = map (\<lambda>e. cur @ [d_name e]) (filter (\<lambda>e. d_kind e = Directory) entries)"
  shows "\<forall>c\<in>set C. Suc L - length (root_path c) < Suc L - length (root_path cur)"
proof
  fix c assume "c \<in> set C"
  with C names obtain n where c: "c = cur @ [n]" and n: "segment n" by auto
  from length_root_path_child(1) [OF n, of cur] limit
  show "Suc L - length (root_path c) < Suc L - length (root_path cur)"
    unfolding c by simp
qed

lemma listFiles_while_returns:
  assumes "proper_listings os" "path_limits os L N"
  shows "\<forall>x\<in>set S. \<forall>s\<in>set x. segment s \<Longrightarrow>
           \<exists>y. listFiles_while os w (map root_path S) out = Some y"
proof (induction "mset (map (\<lambda>x. Suc L - length (root_path x)) S)" arbitrary: S out
    rule: less_induct)
  case less
  show ?case
  proof (cases S)
    case Nil
    then show ?thesis by (subst listFiles_while.simps) simp
  next
    case (Cons cur S')
    with less.prems have cur: "\<forall>s\<in>set cur. segment s" and rest: "\<forall>x\<in>set S'. \<forall>s\<in>set x. segment s"
      by simp_all
    show ?thesis
    proof (cases "os_readdir os w (root_path cur)")
      case (Inl e)
      with Cons show ?thesis by (subst listFiles_while.simps) simp
    next
      case (Inr entries)
      with assms have n: "\<forall>e\<in>set entries. segment (d_name e)" and limit: "length (root_path cur) \<le> L"
        unfolding proper_listings_def path_limits_def by blast+
      define C where "C = map (\<lambda>e. cur @ [d_name e]) (filter (\<lambda>e. d_kind e = Directory) entries)"
      have rp: "map abs_path C = map root_path C"
        unfolding C_def by (simp add: root_path_def)
      obtain out' where e: "listFiles_entries (root_path cur) entries (map root_path S') out
                 = (map root_path (rev C @ S'), out')"
        using listFiles_entries_result [OF cur n, of "map root_path S'" out] rp
        by (simp add: C_def comp_def rev_map)
      from children_smaller [OF limit n C_def]
      have "mset (map (\<lambda>x. Suc L - length (root_path x)) (rev C @ S'))
              < mset (map (\<lambda>x. Suc L - length (root_path x)) (cur # S'))"
        by (rule pop_push_smaller)
      moreover have "\<forall>x\<in>set (rev C @ S'). \<forall>s\<in>set x. segment s"
        using cur rest n unfolding C_def by auto
      ultimately obtain y where "listFiles_while os w (map root_path (rev C @ S')) out' = Some y"
        using less.hyps [of "rev C @ S'" out'] Cons by blast
      with Cons Inr e show ?thesis by (subst listFiles_while.simps) simp
    qed
  qed
qed

lemma listDirs_while_returns:
  assumes "proper_listings os" "path_limits os L N"
  shows "\<forall>x\<in>set S. \<forall>s\<in>set x. segment s \<Longrightarrow>
           \<exists>y. listDirs_while os w (map root_path S) out = Some y"
proof (induction "mset (map (\<lambda>x. Suc L - length (root_path x)) S)" arbitrary: S out
    rule: less_induct)
  case less
  show ?case
  proof (cases S)
    case Nil
    then show ?thesis by (subst listDirs_while.simps) simp
  next
    case (Cons cur S')
    with less.prems have cur: "\<forall>s\<in>set cur. segment s" and rest: "\<forall>x\<in>set S'. \<forall>s\<in>set x. segment s"
      by simp_all
    show ?thesis
    proof (cases "os_readdir os w (root_path cur)")
      case (Inl e)
      with Cons show ?thesis by (subst listDirs_while.simps) simp
    next
      case (Inr entries)
      with assms have n: "\<forall>e\<in>set entries. segment (d_name e)" and limit: "length (root_path cur) \<le> L"
        unfolding proper_listings_def path_limits_def by blast+
      define C where "C = map (\<lambda>e. cur @ [d_name e]) (filter (\<lambda>e. d_kind e = Directory) entries)"
      have rp: "map abs_path C = map root_path C"
        unfolding C_def by (simp add: root_path_def)
      obtain out' where e: "listDirs_entries (root_path cur) entries (map root_path S') out
                 = (map root_path (rev C @ S'), out')"
        using listDirs_entries_result [OF cur n, of "map root_path S'" out] rp
        by (simp add: C_def comp_def rev_map)
      from children_smaller [OF limit n C_def]
      have "mset (map (\<lambda>x. Suc L - length (root_path x)) (rev C @ S'))
              < mset (map (\<lambda>x. Suc L - length (root_path x)) (cur # S'))"
        by (rule pop_push_smaller)
      moreover have "\<forall>x\<in>set (rev C @ S'). \<forall>s\<in>set x. segment s"
        using cur rest n unfolding C_def by auto
      ultimately obtain y where "listDirs_while os w (map root_path (rev C @ S')) out' = Some y"
        using less.hyps [of "rev C @ S'" out'] Cons by blast
      with Cons Inr e show ?thesis by (subst listDirs_while.simps) simp
    qed
  qed
qed

lemma listFiles_while_bounded:
  assumes run: "listFiles_while os w stack out = Some y"
    and env: "proper_listings os" "path_limits os L N"
    and inv: "stack = map root_path S" "\<forall>x\<in>set S. \<forall>s\<in>set x. segment s"
      "\<forall>f\<in>set out. length f \<le> L + N + 1"
  shows "\<forall>files. y = Inr files \<longrightarrow> (\<forall>f\<in>set files. length f \<le> L + N + 1)"
  using env inv
proof (induction os w stack out y arbitrary: S rule: listFiles_while.raw_induct)
  case (1 f os w stack out y)
  note IH = 1(1) and body = 1(2) and env = 1(3,4) and st = 1(5) and segs = 1(6) and ou = 1(7)
  show ?case
  proof (cases S)
    case Nil
    with body st have "y = Inr out" by simp
    with ou show ?thesis by simp
  next
    case (Cons cur S')
    with st have stack: "stack = root_path cur # map root_path S'" by simp
    from segs Cons have cur: "\<forall>s\<in>set cur. segment s" and rest: "\<forall>x\<in>set S'. \<forall>s\<in>set x. segment s"
      by simp_all
    show ?thesis
    proof (cases "os_readdir os w (root_path cur)")
      case (Inl e)
      with body stack have "y = Inl e" by simp
      then show ?thesis by simp
    next
      case (Inr entries)
      with env have n: "\<forall>e\<in>set entries. segment (d_name e)"
        and limit: "length (root_path cur) \<le> L" and names: "\<forall>e\<in>set entries. length (d_name e) \<le> N"
        unfolding proper_listings_def path_limits_def by blast+
      define C where "C = map (\<lambda>e. cur @ [d_name e]) (filter (\<lambda>e. d_kind e = Directory) entries)"
      define F where "F = map (\<lambda>e. abs_path (cur @ [d_name e])) (filter (\<lambda>e. d_kind e = File) entries)"
      have rp: "map abs_path C = map root_path C"
        unfolding C_def by (simp add: root_path_def)
      from listFiles_entries_result [OF cur n, of "map root_path S'" out]
      have e: "listFiles_entries (root_path cur) entries (map root_path S') out
                 = (map root_path (rev C @ S'), out @ F)"
        using rp by (simp add: C_def F_def comp_def rev_map)
      with body stack Inr have rec: "f os w (map root_path (rev C @ S')) (out @ F) = Some y"
        by simp
      have s2: "\<forall>x\<in>set (rev C @ S'). \<forall>s\<in>set x. segment s"
        using cur rest n unfolding C_def by auto
      have "length p \<le> L + N + 1" if "p \<in> set F" for p
      proof -
        from that obtain e where e: "e \<in> set entries" and p: "p = abs_path (cur @ [d_name e])"
          unfolding F_def by auto
        from n e have "segment (d_name e)" by blast
        from length_root_path_child(2) [OF this, of cur] limit names e show ?thesis
          unfolding p by fastforce
      qed
      with ou have o2: "\<forall>f\<in>set (out @ F). length f \<le> L + N + 1" by auto
      from IH [OF rec env refl s2 o2] show ?thesis .
    qed
  qed
qed fact

lemma bounded_walks:
  assumes "proper_listings os" "path_limits os L N" "\<forall>s\<in>set segs. segment s"
  shows "\<exists>y. listFilesRecursive os w (root_path segs) = Some y"
    and "\<exists>y. listDirsRecursive os w (root_path segs) = Some y"
    and "listFilesRecursive os w (root_path segs) = Some (Inr files) \<Longrightarrow>
           set files \<subseteq> {p. length p \<le> L + N + 1}"
proof -
  from listFiles_while_returns [OF assms(1,2), of "[segs]" w "[]"] assms(3)
  show "\<exists>y. listFilesRecursive os w (root_path segs) = Some y"
    by (simp add: listFilesRecursive_def)
  from listDirs_while_returns [OF assms(1,2), of "[segs]" w "[]"] assms(3)
  show "\<exists>y. listDirsRecursive os w (root_path segs) = Some y"
    by (simp add: listDirsRecursive_def)
  assume "listFilesRecursive os w (root_path segs) = Some (Inr files)"
  then have "listFiles_while os w [root_path segs] [] = Some (Inr files)"
    by (simp add: listFilesRecursive_def)
  from listFiles_while_bounded [OF this assms(1,2), of "[segs]"] assms(3)
  show "set files \<subseteq> {p. length p \<le> L + N + 1}" by auto
qed

lemma finite_bounded_paths: "finite {p :: string. length p \<le> n}"
proof -
  have "finite {p :: string. set p \<subseteq> UNIV \<and> length p \<le> n}"
    by (rule finite_lists_length_le) simp
  then show ?thesis by simp
qed

lemma nested_while_returns:
  assumes files: "\<forall>w. \<exists>y. listFilesRecursive os w root = Some y"
    and dirs: "\<forall>w. \<exists>y. listDirsRecursive os w root = Some y"
    and fin: "finite U"
    and zips: "\<forall>w files. listFilesRecursive os w root = Some (Inr files) \<longrightarrow>
                 {z \<in> set files. isRealZipPath z} \<subseteq> U"
  shows "\<exists>y. nested_while os root st w = Some y"
proof (induction "card (U - processed st)" arbitrary: st w rule: less_induct)
  case less
  from dirs obtain ds where ds: "listDirsRecursive os w root = Some ds" by blast
  show ?case
  proof (cases ds)
    case (Inl e)
    with ds have "makeDirectoriesWritable os w root = Some (Inl e, w)"
      by (simp add: makeDirectoriesWritable_def)
    then show ?thesis by (subst nested_while.simps) simp
  next
    case (Inr found)
    obtain updated w1 where c: "chmod_dirs os w (root # found) 0 = (updated, w1)"
      by (cases "chmod_dirs os w (root # found) 0")
    with ds Inr have m: "makeDirectoriesWritable os w root = Some (Inr updated, w1)"
      by (simp add: makeDirectoriesWritable_def del: chmod_dirs.simps)
    from files obtain l where l: "listFilesRecursive os w1 root = Some l" by blast
    show ?thesis
    proof (cases l)
      case (Inl e)
      with m l show ?thesis by (subst nested_while.simps) simp
    next
      case files: (Inr files)
      let ?pending = "filter (\<lambda>zipPath. zipPath \<notin> processed st) (filter isRealZipPath files)"
      show ?thesis
      proof (cases "?pending = []")
        case True
        with m l files show ?thesis by (subst nested_while.simps) (simp add: Let_def)
      next
        case False
        obtain st1 w2 where n: "nested_pending os ?pending st w1 = (st1, w2)"
          by (cases "nested_pending os ?pending st w1")
        from nested_pending_processed [of os ?pending st w1] n
        have p1: "processed st1 = processed st \<union> set ?pending" by simp
        from zips l files have sub: "set ?pending \<subseteq> U - processed st" by auto
        define z where "z = hd ?pending"
        from False have z: "z \<in> set ?pending" unfolding z_def by (rule hd_in_set)
        with sub have "z \<in> U - processed st" by blast
        moreover from z p1 have "z \<notin> U - processed st1" by simp
        moreover from p1 have "U - processed st1 \<subseteq> U - processed st" by auto
        ultimately have "U - processed st1 \<subset> U - processed st" by blast
        with fin have "card (U - processed st1) < card (U - processed st)"
          by (intro psubset_card_mono) auto
        from less [OF this, of w2] obtain y where "nested_while os root st1 w2 = Some y" ..
        with m l files False n show ?thesis
          by (subst nested_while.simps) (simp add: Let_def)
      qed
    qed
  qed
qed

text \<open>
  C2. On a machine with proper listings, where paths and names have a greatest length
  as on every file system, the tree under the root directory is finite at every
  moment, however the extractions change it, and the nested-extraction loop returns.
  Both walks of the tree return; the paths of the files a walk can ever list lie in
  one finite set; the processed set never shrinks in a pass, and it grows strictly in
  every pass that has a pending zip, which by the filter is not in the set; so the
  loop makes no more such passes than the finite set has elements, and then finds no
  zip pending and stops.
\<close>

theorem C2_loop_terminates:
  assumes "proper_listings os" "path_limits os L N"
    and "rootOutputDir = root_path segs" "\<forall>s\<in>set segs. segment s"
  shows "(\<exists>y. extractNestedZips os w rootOutputDir = Some y)
       \<and> (\<exists>y. nested_while os rootOutputDir st w = Some y)
       \<and> (\<exists>y. listFilesRecursive os w rootOutputDir = Some y)
       \<and> (\<exists>y. listDirsRecursive os w rootOutputDir = Some y)
       \<and> finite {z. \<exists>v files. listFilesRecursive os v rootOutputDir = Some (Inr files)
                               \<and> z \<in> set files}
       \<and> (nested_pending os pending st w = (st1, w1) \<longrightarrow>
            processed st \<subseteq> processed st1
            \<and> (pending \<noteq> [] \<and> set pending \<inter> processed st = {} \<longrightarrow>
                 processed st \<subset> processed st1))"
proof -
  let ?U = "{p :: string. length p \<le> L + N + 1}"
  note walks = bounded_walks [OF assms(1,2,4), folded assms(3)]
  have fin: "finite ?U" by (rule finite_bounded_paths)
  have f: "\<forall>w. \<exists>y. listFilesRecursive os w rootOutputDir = Some y" using walks(1) by blast
  have d: "\<forall>w. \<exists>y. listDirsRecursive os w rootOutputDir = Some y" using walks(2) by blast
  have all: "{z. \<exists>v files. listFilesRecursive os v rootOutputDir = Some (Inr files) \<and> z \<in> set files}
               \<subseteq> ?U"
    using walks(3) by blast
  then have zips: "\<forall>w files. listFilesRecursive os w rootOutputDir = Some (Inr files) \<longrightarrow>
                 {z \<in> set files. isRealZipPath z} \<subseteq> ?U"
    by blast
  note returns = nested_while_returns [OF f d fin zips]
  let ?st0 = "\<lparr>processed = {}, nestedZipCount = 0, nestedZipFailures = 0\<rparr>"
  from returns [of ?st0 w] obtain y where "nested_while os rootOutputDir ?st0 w = Some y" ..
  then have 1: "\<exists>y. extractNestedZips os w rootOutputDir = Some y"
    by (cases y) (auto simp: extractNestedZips_def split: sum.splits)
  have 2: "\<exists>y. nested_while os rootOutputDir st w = Some y" by (rule returns)
  have 3: "finite {z. \<exists>v files. listFilesRecursive os v rootOutputDir = Some (Inr files)
                               \<and> z \<in> set files}"
    using all fin by (rule finite_subset)
  have 4: "processed st \<subseteq> processed st1
            \<and> (pending \<noteq> [] \<and> set pending \<inter> processed st = {} \<longrightarrow>
                 processed st \<subset> processed st1)"
    if p: "nested_pending os pending st w = (st1, w1)"
  proof -
    from nested_pending_processed [of os pending st w] p
    have e: "processed st1 = processed st \<union> set pending" by simp
    have "processed st \<subset> processed st1" if a: "pending \<noteq> [] \<and> set pending \<inter> processed st = {}"
    proof -
      from a have h: "hd pending \<in> set pending" by simp
      with a have "hd pending \<notin> processed st" by blast
      moreover from h e have "hd pending \<in> processed st1" by simp
      ultimately show ?thesis using e by blast
    qed
    with e show ?thesis by blast
  qed
  from 1 2 f d 3 4 show ?thesis by blast
qed

theorem C2_loop_terminates_witness:
  "proper_listings quine_os \<and> path_limits quine_os 50 11
   \<and> extractNestedZips quine_os 0 ''/out'' = Some (Inr (3, 1), 3)
   \<and> extractNestedZips quine_os 0 ''/out'' \<noteq> None
   \<and> listFilesRecursive quine_os 3 ''/out''
       = Some (Inr [''/out/r.zip'', ''/out/r_extracted/r.zip'',
                    ''/out/r_extracted/r_extracted/r.zip'',
                    ''/out/r_extracted/r_extracted/r_extracted/r.zip''])"
proof -
  have p: "proper_listings quine_os"
    unfolding proper_listings_def
    by (auto simp: quine_os_def too_long_def file_entry_def dir_entry_def segment_def
        split: if_splits)
  have l: "path_limits quine_os 50 11"
    unfolding path_limits_def
    by (auto simp: quine_os_def too_long_def file_entry_def dir_entry_def split: if_splits)
  have r: "''/out'' = root_path [''out'']" by (simp add: root_path_def)
  have s: "\<forall>s\<in>set [''out'']. segment s" by (simp add: segment_def)
  from C2_loop_terminates [OF p l r s, THEN conjunct1, of 0]
  have n: "extractNestedZips quine_os 0 ''/out'' \<noteq> None" by auto
  have e: "extractNestedZips quine_os 0 ''/out'' = Some (Inr (3, 1), 3)" by code_simp
  have f: "listFilesRecursive quine_os 3 ''/out''
       = Some (Inr [''/out/r.zip'', ''/out/r_extracted/r.zip'',
                    ''/out/r_extracted/r_extracted/r.zip'',
                    ''/out/r_extracted/r_extracted/r_extracted/r.zip''])"
    by code_simp
  from p l e n f show ?thesis by (intro conjI)
qed

end
